theory Spec2Isabelle
  imports Complex_Main "HOL-Library.Monad_Syntax"
begin

section \<open>Data model of the PStats client data\<close>

text \<open>
  The embedding follows \<^verbatim>\<open>pStatClientData.cxx\<close> and the member list of
  \<^verbatim>\<open>pStatThreadData.h\<close>. C++ \<^verbatim>\<open>int\<close> values are HOL integers; the one place where
  the machine representation decides the outcome, the comparison of a \<^verbatim>\<open>size_t\<close> with
  an \<^verbatim>\<open>int\<close>, has its conversion written out (\<open>size_t_of_int\<close>). The casts
  \<^verbatim>\<open>(int)_collectors.size()\<close> and \<^verbatim>\<open>(int)_threads.size()\<close> are exact: a table of a
  session never has more than 1000 slots (\<open>reachable_table_sizes\<close>). Nullable pointers
  are options, vectors are lists.
\<close>

record PStatCollectorDef =
  def_index :: int
  def_name :: string
  def_parent_index :: int

text \<open>
  Modelled from the spec: the constructor \<^verbatim>\<open>PStatCollectorDef(int index, const string &name)\<close>
  lives in \<^verbatim>\<open>pStatCollectorDef.h\<close>, which is not part of the sources at hand. It stores
  the id and the display name; the parent is the root collector 0.
\<close>

definition PStatCollectorDef_ctor :: "int \<Rightarrow> string \<Rightarrow> PStatCollectorDef" where
  "PStatCollectorDef_ctor idx nm =
     \<lparr>def_index = idx, def_name = nm, def_parent_index = 0\<rparr>"

text \<open>\<^verbatim>\<open>PStatCollectorDef PStatClientData::_null_collector(-1, "Unknown");\<close>\<close>

definition null_collector :: PStatCollectorDef where
  "null_collector = PStatCollectorDef_ctor (- 1) ''Unknown''"

text \<open>
  \<^verbatim>\<open>struct Thread { string _name; PT(PStatThreadData) _data; }\<close>: the frame store is kept
  abstract (\<open>'d\<close>) in the session model; a null \<^verbatim>\<open>PT\<close> is \<open>None\<close>.
\<close>

record 'd Thread =
  thread_name :: string
  thread_data :: "'d option"

text \<open>The default-constructed \<^verbatim>\<open>Thread()\<close>: empty name, null data pointer.\<close>

definition Thread_ctor :: "'d Thread" where
  "Thread_ctor = \<lparr>thread_name = [], thread_data = None\<rparr>"

type_synonym reader_ptr = nat

text \<open>
  The members \<^verbatim>\<open>_is_alive\<close>, \<^verbatim>\<open>_reader\<close>, \<^verbatim>\<open>_collectors\<close> and \<^verbatim>\<open>_threads\<close>.
  A reader is known by its address only.
\<close>

record 'd PStatClientData =
  alive_flag :: bool
  reader :: "reader_ptr option"
  collectors :: "PStatCollectorDef option list"
  threads :: "'d Thread list"

datatype error = ValidationError | AllocError | NullPointer

text \<open>The constructor \<^verbatim>\<open>PStatClientData(PStatReader *reader)\<close>.\<close>

definition PStatClientData_ctor :: "reader_ptr option \<Rightarrow> 'd PStatClientData" where
  "PStatClientData_ctor r =
     \<lparr>alive_flag = True, reader = r, collectors = [], threads = []\<rparr>"

definition is_alive :: "'d PStatClientData \<Rightarrow> bool" where
  "is_alive s = alive_flag s"

text \<open>
  \<^verbatim>\<open>close()\<close> returns the new state together with the readers on which
  \<^verbatim>\<open>_reader->close()\<close> was called during the call, so that the release of the
  connection can be counted.
\<close>

definition close :: "'d PStatClientData \<Rightarrow> 'd PStatClientData \<times> reader_ptr list" where
  "close s =
     (if alive_flag s \<and> reader s \<noteq> None
      then (s\<lparr>reader := None, alive_flag := False\<rparr>, [the (reader s)])
      else (s, []))"

definition get_num_collectors :: "'d PStatClientData \<Rightarrow> int" where
  "get_num_collectors s = int (length (collectors s))"

definition has_collector :: "'d PStatClientData \<Rightarrow> int \<Rightarrow> bool" where
  "has_collector s idx =
     (0 \<le> idx \<and> idx < int (length (collectors s)) \<and> collectors s ! nat idx \<noteq> None)"

definition get_collector_def :: "'d PStatClientData \<Rightarrow> int \<Rightarrow> PStatCollectorDef" where
  "get_collector_def s idx =
     (if \<not> has_collector s idx then null_collector
      else the (collectors s ! nat idx))"

definition get_collector_name :: "'d PStatClientData \<Rightarrow> int \<Rightarrow> string" where
  "get_collector_name s idx =
     (if \<not> has_collector s idx then ''Unknown''
      else def_name (the (collectors s ! nat idx)))"

text \<open>
  The recursion follows the parent links and need not end when they form a cycle, so
  the result is an option: \<open>None\<close> stands for a call that never returns.
\<close>

partial_function (option) get_collector_fullname ::
  "'d PStatClientData \<Rightarrow> int \<Rightarrow> string option" where
  "get_collector_fullname s idx =
     (if \<not> has_collector s idx then Some ''Unknown''
      else if def_parent_index (the (collectors s ! nat idx)) = 0
        then Some (def_name (the (collectors s ! nat idx)))
        else Option.bind
               (get_collector_fullname s (def_parent_index (the (collectors s ! nat idx))))
               (\<lambda>p. Some (p @ '':'' @ def_name (the (collectors s ! nat idx)))))"

definition get_num_threads :: "'d PStatClientData \<Rightarrow> int" where
  "get_num_threads s = int (length (threads s))"

definition has_thread :: "'d PStatClientData \<Rightarrow> int \<Rightarrow> bool" where
  "has_thread s idx =
     (0 \<le> idx \<and> idx < int (length (threads s)) \<and> thread_name (threads s ! nat idx) \<noteq> [])"

definition get_thread_name :: "'d PStatClientData \<Rightarrow> int \<Rightarrow> string" where
  "get_thread_name s idx =
     (if \<not> has_thread s idx then ''Unknown''
      else thread_name (threads s ! nat idx))"

partial_function (option) get_child_distance ::
  "'d PStatClientData \<Rightarrow> int \<Rightarrow> int \<Rightarrow> int option" where
  "get_child_distance s parent child =
     (if parent = child then Some 0
      else if \<not> has_collector s child \<or> child = 0 then Some (- 1)
      else Option.bind
             (get_child_distance s parent (def_parent_index (get_collector_def s child)))
             (\<lambda>dist. if dist = - 1 then Some (- 1) else Some (dist + 1)))"

subsection \<open>Growing the tables\<close>

text \<open>
  In \<^verbatim>\<open>while (_collectors.size() <= def->_index)\<close> the \<^verbatim>\<open>int\<close> on the right is
  converted to \<^verbatim>\<open>size_t\<close> (64 bits) before the comparison, so a negative index
  compares as a number just below \<open>2 ^ 64\<close>.
\<close>

definition size_t_of_int :: "int \<Rightarrow> nat" where
  "size_t_of_int i = nat (i mod 2 ^ 64)"

text \<open>
  A vector cannot hold more than \<^verbatim>\<open>max_size()\<close> elements; \<^verbatim>\<open>push_back\<close> beyond that
  throws and leaves the vector as it is. The bound is that of a vector of pointers on
  an LP64 platform; every bound from 1000 up to \<open>2 ^ 64 - 2 ^ 31\<close> gives the same
  results for ids that fit a 32 bit \<^verbatim>\<open>int\<close>.
\<close>

definition vector_max_size :: nat where
  "vector_max_size = 2 ^ 60 - 1"

function grow_slots :: "'a \<Rightarrow> 'a list \<Rightarrow> nat \<Rightarrow> error option \<times> 'a list" where
  "grow_slots x xs n =
     (if length xs \<le> n
      then (if length xs < vector_max_size then grow_slots x (xs @ [x]) n
            else (Some AllocError, xs))
      else (None, xs))"
  by pat_completeness auto
termination
  by (relation "measure (\<lambda>(x, xs, n). vector_max_size - length xs)") auto

declare grow_slots.simps [simp del]

text \<open>
  Modelled from the spec: the macro \<^verbatim>\<open>nassertv(condition)\<close> is defined outside the
  sources at hand. A failed assertion is reported as a \<open>ValidationError\<close> and the
  function returns at once, leaving the object as it was.
\<close>

definition add_collector ::
  "PStatCollectorDef \<Rightarrow> 'd PStatClientData \<Rightarrow> error option \<times> 'd PStatClientData" where
  "add_collector d s =
     (if \<not> def_index d < 1000 then (Some ValidationError, s)
      else
        (case grow_slots None (collectors s) (size_t_of_int (def_index d)) of
           (Some e, cs) \<Rightarrow> (Some e, s\<lparr>collectors := cs\<rparr>)
         | (None, cs) \<Rightarrow>
             (None, s\<lparr>collectors := cs[size_t_of_int (def_index d) := Some d]\<rparr>)))"

text \<open>
  \<^verbatim>\<open>define_thread(int thread_index, const string &name)\<close>; \<open>mk\<close> is the store made by
  \<^verbatim>\<open>new PStatThreadData(this)\<close>, whose constructor is outside the sources at hand.
\<close>

definition define_thread ::
  "'d \<Rightarrow> int \<Rightarrow> string \<Rightarrow> 'd PStatClientData \<Rightarrow> error option \<times> 'd PStatClientData" where
  "define_thread mk thread_index nm s =
     (if \<not> thread_index < 1000 then (Some ValidationError, s)
      else
        (case grow_slots Thread_ctor (threads s) (size_t_of_int thread_index) of
           (Some e, ts) \<Rightarrow> (Some e, s\<lparr>threads := ts\<rparr>)
         | (None, ts) \<Rightarrow>
             (let i = size_t_of_int thread_index;
                  ts1 = (if nm \<noteq> [] then ts[i := (ts ! i)\<lparr>thread_name := nm\<rparr>] else ts);
                  ts2 = (if thread_data (ts1 ! i) = None
                         then ts1[i := (ts1 ! i)\<lparr>thread_data := Some mk\<rparr>] else ts1)
              in (None, s\<lparr>threads := ts2\<rparr>))))"

text \<open>
  \<^verbatim>\<open>get_thread_data(index)\<close> calls \<^verbatim>\<open>define_thread(index)\<close> with the default name
  \<^verbatim>\<open>""\<close>; an exception of the allocation passes through, a failed assertion inside
  \<^verbatim>\<open>define_thread\<close> only ends that call. \<^verbatim>\<open>nassertr(cond, NULL)\<close> returns the null
  pointer.
\<close>

definition get_thread_data ::
  "'d \<Rightarrow> int \<Rightarrow> 'd PStatClientData \<Rightarrow> error option \<times> 'd option \<times> 'd PStatClientData" where
  "get_thread_data mk idx s =
     (case define_thread mk idx [] s of
        (Some AllocError, s') \<Rightarrow> (Some AllocError, None, s')
      | (_, s') \<Rightarrow>
          (if \<not> (0 \<le> idx \<and> idx < int (length (threads s')))
           then (Some ValidationError, None, s')
           else (None, thread_data (threads s' ! nat idx), s')))"

text \<open>
  Modelled from the spec: the class \<^verbatim>\<open>PStatFrameData\<close> is only declared in the sources
  at hand. The spec describes it as an opaque per-frame payload that carries a
  timestamp; timestamps are taken as real numbers.
\<close>

record PStatFrameData =
  frame_time :: real

text \<open>
  \<^verbatim>\<open>record_new_frame(thread_index, frame_number, frame_data)\<close>; \<open>rnf\<close> is
  \<^verbatim>\<open>PStatThreadData::record_new_frame\<close>, whose body is outside the sources at hand.
\<close>

definition record_new_frame ::
  "(int \<Rightarrow> PStatFrameData \<Rightarrow> 'd \<Rightarrow> 'd) \<Rightarrow> 'd \<Rightarrow> int \<Rightarrow> int \<Rightarrow> PStatFrameData
     \<Rightarrow> 'd PStatClientData
     \<Rightarrow> error option \<times> 'd PStatClientData" where
  "record_new_frame rnf mk thread_index frame_number frame_data s =
     (case define_thread mk thread_index [] s of
        (Some AllocError, s') \<Rightarrow> (Some AllocError, s')
      | (_, s') \<Rightarrow>
          (if \<not> (0 \<le> thread_index \<and> thread_index < int (length (threads s')))
           then (Some ValidationError, s')
           else
             (case thread_data (threads s' ! nat thread_index) of
                None \<Rightarrow> (Some NullPointer, s')
              | Some d \<Rightarrow>
                  (None, s'\<lparr>threads := (threads s')[nat thread_index :=
                     (threads s' ! nat thread_index)
                       \<lparr>thread_data := Some (rnf frame_number frame_data d)\<rparr>]\<rparr>))))"

subsection \<open>Sessions reached by the mutating calls\<close>

text \<open>The values of a 32 bit \<^verbatim>\<open>int\<close>.\<close>

definition fits_int :: "int \<Rightarrow> bool" where
  "fits_int i \<longleftrightarrow> - (2 ^ 31) \<le> i \<and> i < 2 ^ 31"

text \<open>
  A session starts from the constructor with the reader that owns it and changes by
  the calls above, with ids that are \<^verbatim>\<open>int\<close> values. A call that ends in an
  allocation failure throws out of the session and is not followed further.
\<close>

inductive reachable :: "'d PStatClientData \<Rightarrow> bool" where
  reach_ctor: "reachable (PStatClientData_ctor (Some r))"
| reach_add_collector:
    "reachable s \<Longrightarrow> fits_int (def_index d) \<Longrightarrow> add_collector d s = (e, s') \<Longrightarrow>
       e \<noteq> Some AllocError \<Longrightarrow> reachable s'"
| reach_define_thread:
    "reachable s \<Longrightarrow> fits_int i \<Longrightarrow> define_thread mk i nm s = (e, s') \<Longrightarrow>
       e \<noteq> Some AllocError \<Longrightarrow> reachable s'"
| reach_get_thread_data:
    "reachable s \<Longrightarrow> fits_int i \<Longrightarrow> get_thread_data mk i s = (e, d, s') \<Longrightarrow>
       e \<noteq> Some AllocError \<Longrightarrow> reachable s'"
| reach_record_new_frame:
    "reachable s \<Longrightarrow> fits_int i \<Longrightarrow> record_new_frame rnf mk i n fd s = (e, s') \<Longrightarrow>
       e \<noteq> Some AllocError \<Longrightarrow> reachable s'"
| reach_close: "reachable s \<Longrightarrow> reachable (fst (close s))"

text \<open>A run of \<^verbatim>\<open>define_thread\<close> calls for one thread id, each with its own fresh store.\<close>

fun define_thread_seq ::
  "int \<Rightarrow> ('d \<times> string) list \<Rightarrow> 'd PStatClientData \<Rightarrow> 'd PStatClientData" where
  "define_thread_seq i [] s = s"
| "define_thread_seq i ((mk, nm) # calls) s =
     define_thread_seq i calls (snd (define_thread mk i nm s))"

subsection \<open>Notions of the specification\<close>

text \<open>The collector reached from \<open>c\<close> by following the stored parent link \<open>k\<close> times.\<close>

fun ancestor :: "'d PStatClientData \<Rightarrow> nat \<Rightarrow> int \<Rightarrow> int" where
  "ancestor s 0 c = c"
| "ancestor s (Suc k) c = ancestor s k (def_parent_index (get_collector_def s c))"

text \<open>
  The parent links between defined collectors, as pairs (parent, child). A link to
  parent 0 ends every walk and is left out, so the root may name itself as parent.
\<close>

definition parent_links :: "'d PStatClientData \<Rightarrow> (int \<times> int) set" where
  "parent_links s =
     {(p, c). has_collector s c \<and> has_collector s p \<and> p \<noteq> 0 \<and>
              p = def_parent_index (get_collector_def s c)}"

text \<open>
  What the thread table holds for an id: the name and the store in its slot, the empty
  name and no store for an id without a slot. (\<^verbatim>\<open>get_thread_name\<close> cannot tell an
  empty name from a missing slot.)
\<close>

definition slot_name :: "'d PStatClientData \<Rightarrow> int \<Rightarrow> string" where
  "slot_name s i =
     (if 0 \<le> i \<and> i < int (length (threads s)) then thread_name (threads s ! nat i) else [])"

definition slot_data :: "'d PStatClientData \<Rightarrow> int \<Rightarrow> 'd option" where
  "slot_data s i =
     (if 0 \<le> i \<and> i < int (length (threads s)) then thread_data (threads s ! nat i) else None)"

subsection \<open>The frame store\<close>

text \<open>
  The members \<^verbatim>\<open>_frames\<close>, \<^verbatim>\<open>_first_frame_number\<close> and \<^verbatim>\<open>_history\<close> of
  \<^verbatim>\<open>PStatThreadData\<close>; a null entry of the deque is a hole.
\<close>

record PStatThreadData =
  frames :: "PStatFrameData option list"
  first_frame_number :: int
  history :: real

text \<open>The timestamps of the retained frames (the entries that are not holes), in order.\<close>

definition retained_times :: "PStatThreadData \<Rightarrow> real list" where
  "retained_times td = map frame_time (List.map_filter id (frames td))"

text \<open>
  Modelled from the spec: \<^verbatim>\<open>get_latest_time\<close> is only declared in
  \<^verbatim>\<open>pStatThreadData.h\<close>. It is the timestamp of the frame at the upper bound of the
  retained range; on an empty store the result is a sentinel, here 0.
\<close>

definition get_latest_time :: "PStatThreadData \<Rightarrow> real" where
  "get_latest_time td = (if retained_times td = [] then 0 else last (retained_times td))"

text \<open>
  Modelled from the spec: the qualifying frames of \<^verbatim>\<open>frame_rate\<close> are the retained
  frames whose timestamp lies within \<open>w\<close> seconds of \<open>get_latest_time\<close>.
\<close>

definition qualifying_times :: "PStatThreadData \<Rightarrow> real \<Rightarrow> real list" where
  "qualifying_times td w =
     filter (\<lambda>t. \<bar>get_latest_time td - t\<bar> \<le> w) (retained_times td)"

text \<open>
  Modelled from the spec: one pass over timestamps that keeps their number and the
  earliest and the latest timestamp seen so far; it is the loop of \<^verbatim>\<open>get_frame_rate\<close>
  below.
\<close>

fun scan_frames :: "real list \<Rightarrow> nat \<times> real \<times> real \<Rightarrow> nat \<times> real \<times> real" where
  "scan_frames [] acc = acc"
| "scan_frames (t # ts) (n, lo, hi) = scan_frames ts (Suc n, min lo t, max hi t)"

text \<open>
  Modelled from the spec: \<^verbatim>\<open>get_frame_rate\<close> is only declared in
  \<^verbatim>\<open>pStatThreadData.h\<close> (\<^verbatim>\<open>double get_frame_rate(double time = 3.0) const\<close>); its body is
  not part of the sources at hand. Following the spec, it passes over the qualifying
  frames, returns 0 when there are fewer than two of them or when their timestamps
  span no time, and the number of intervals between them divided by the span
  otherwise. The C++ \<^verbatim>\<open>double\<close> is taken as a real number.
\<close>

definition get_frame_rate :: "PStatThreadData \<Rightarrow> real \<Rightarrow> real" where
  "get_frame_rate td w =
     (case qualifying_times td w of
        [] \<Rightarrow> 0
      | t # ts \<Rightarrow>
          (case scan_frames ts (1, t, t) of
             (n, lo, hi) \<Rightarrow>
               if n < 2 then 0
               else if hi - lo = 0 then 0
               else (real n - 1) / (hi - lo)))"

subsection \<open>Example sessions\<close>

text \<open>
  A three-level chain: the root \<open>Frame\<close> (id 0), \<open>Draw\<close> (id 1) below it, \<open>Cull\<close>
  (id 2) below \<open>Draw\<close>; slot 3 was never defined, and \<open>Lost\<close> (id 4) names the
  undefined collector 3 as its parent.
\<close>

definition chain_session :: "unit PStatClientData" where
  "chain_session =
     \<lparr>alive_flag = True, reader = Some 7,
      collectors =
        [Some \<lparr>def_index = 0, def_name = ''Frame'', def_parent_index = 0\<rparr>,
         Some \<lparr>def_index = 1, def_name = ''Draw'', def_parent_index = 0\<rparr>,
         Some \<lparr>def_index = 2, def_name = ''Cull'', def_parent_index = 1\<rparr>,
         None,
         Some \<lparr>def_index = 4, def_name = ''Lost'', def_parent_index = 3\<rparr>],
      threads = [\<lparr>thread_name = ''Main'', thread_data = Some ()\<rparr>]\<rparr>"

text \<open>A session whose collector 1 names collector 2 as parent, and 2 names 1.\<close>

definition loop_session :: "unit PStatClientData" where
  "loop_session =
     \<lparr>alive_flag = True, reader = Some 7,
      collectors =
        [None,
         Some \<lparr>def_index = 1, def_name = ''Ping'', def_parent_index = 2\<rparr>,
         Some \<lparr>def_index = 2, def_name = ''Pong'', def_parent_index = 1\<rparr>],
      threads = []\<rparr>"

text \<open>Four frames at the timestamps 0, 0.5, 1 and 1.5, with a hole after the first.\<close>

definition four_frames :: PStatThreadData where
  "four_frames =
     \<lparr>frames = [Some \<lparr>frame_time = 0\<rparr>, None, Some \<lparr>frame_time = 1 / 2\<rparr>,
                Some \<lparr>frame_time = 1\<rparr>, Some \<lparr>frame_time = 3 / 2\<rparr>],
      first_frame_number = 10, history = 60\<rparr>"

section \<open>Growing a table\<close>

lemma size_t_of_int_nonneg: "0 \<le> i \<Longrightarrow> i < 1000 \<Longrightarrow> size_t_of_int i = nat i"
  by (simp add: size_t_of_int_def)

lemma size_t_of_int_neg:
  "i < 0 \<Longrightarrow> - (2 ^ 31) \<le> i \<Longrightarrow> vector_max_size \<le> size_t_of_int i"
proof -
  assume a: "i < 0" "- (2 ^ 31) \<le> i"
  have "(i + 2 ^ 64) mod 2 ^ 64 = i + 2 ^ 64"
    using a by (intro mod_pos_pos_trivial) simp_all
  then have "i mod 2 ^ 64 = i + 2 ^ 64"
    by simp
  then show ?thesis using a by (simp add: size_t_of_int_def vector_max_size_def)
qed

lemma grow_slots_ok:
  "n < vector_max_size \<Longrightarrow> grow_slots x xs n = (None, xs @ replicate (Suc n - length xs) x)"
proof (induction x xs n rule: grow_slots.induct)
  case (1 x xs n)
  show ?case
  proof (cases "length xs \<le> n")
    case True
    then have lt: "length xs < vector_max_size" using "1.prems" by simp
    have "grow_slots x xs n = grow_slots x (xs @ [x]) n"
      using True lt by (subst grow_slots.simps) simp
    also have "\<dots> = (None, (xs @ [x]) @ replicate (Suc n - length (xs @ [x])) x)"
      using "1.IH" True lt "1.prems" by simp
    also have "(xs @ [x]) @ replicate (Suc n - length (xs @ [x])) x
                 = xs @ replicate (Suc n - length xs) x"
      using True by (simp add: Suc_diff_le replicate_app_Cons_same)
    finally show ?thesis .
  next
    case False
    then show ?thesis by (subst grow_slots.simps) simp
  qed
qed

lemma grow_slots_fail:
  "vector_max_size \<le> n \<Longrightarrow> length xs \<le> n \<Longrightarrow>
     grow_slots x xs n = (Some AllocError, xs @ replicate (vector_max_size - length xs) x)"
proof (induction x xs n rule: grow_slots.induct)
  case (1 x xs n)
  show ?case
  proof (cases "length xs < vector_max_size")
    case True
    have "grow_slots x xs n = grow_slots x (xs @ [x]) n"
      using True "1.prems" by (subst grow_slots.simps) simp
    also have "\<dots> = (Some AllocError, (xs @ [x]) @ replicate (vector_max_size - length (xs @ [x])) x)"
      using "1.IH" True "1.prems" by simp
    also have "(xs @ [x]) @ replicate (vector_max_size - length (xs @ [x])) x
                 = xs @ replicate (vector_max_size - length xs) x"
      using True by (simp add: Suc_diff_Suc replicate_app_Cons_same flip: replicate_Suc)
    finally show ?thesis .
  next
    case False
    then show ?thesis using "1.prems" by (subst grow_slots.simps) simp
  qed
qed


section \<open>The collector registry\<close>

lemma add_collector_too_large:
  "1000 \<le> def_index d \<Longrightarrow> add_collector d s = (Some ValidationError, s)"
  by (simp add: add_collector_def)

lemma add_collector_in_range:
  assumes "0 \<le> def_index d" and "def_index d < 1000"
  shows "add_collector d s =
           (None, s\<lparr>collectors :=
              (collectors s @ replicate (Suc (nat (def_index d)) - length (collectors s)) None)
                [nat (def_index d) := Some d]\<rparr>)"
proof -
  have n: "size_t_of_int (def_index d) = nat (def_index d)"
    using assms by (rule size_t_of_int_nonneg)
  have "nat (def_index d) < vector_max_size"
    using assms by (simp add: vector_max_size_def)
  then have "grow_slots None (collectors s) (nat (def_index d)) =
      (None, collectors s @ replicate (Suc (nat (def_index d)) - length (collectors s)) None)"
    by (rule grow_slots_ok)
  then show ?thesis using assms by (simp add: add_collector_def n)
qed

lemma add_collector_negative:
  assumes "def_index d < 0" and "- (2 ^ 31) \<le> def_index d"
    and "length (collectors s) \<le> vector_max_size"
  shows "add_collector d s =
           (Some AllocError, s\<lparr>collectors :=
              collectors s @ replicate (vector_max_size - length (collectors s)) None\<rparr>)"
proof -
  have big: "vector_max_size \<le> size_t_of_int (def_index d)"
    using assms(1,2) by (rule size_t_of_int_neg)
  then have "length (collectors s) \<le> size_t_of_int (def_index d)"
    using assms(3) by simp
  with big have "grow_slots None (collectors s) (size_t_of_int (def_index d)) =
      (Some AllocError, collectors s @ replicate (vector_max_size - length (collectors s)) None)"
    by (rule grow_slots_fail)
  then show ?thesis using assms(1) by (simp add: add_collector_def)
qed

text \<open>
  Claim C1. The claim has \<^verbatim>\<open>add_collector\<close> reject a negative id with a validation
  error and leave the table as it was. The check \<^verbatim>\<open>nassertv(def->_index < 1000)\<close> lets
  every negative id pass; the loop that follows compares the table size with the id
  converted to \<^verbatim>\<open>size_t\<close> and appends null slots until the vector can grow no more.
  At id \<open>- 1\<close> the call ends in an allocation failure with the table filled with
  null slots, not in a validation error with the table unchanged.
\<close>

theorem add_collector_negative_id_not_rejected:
  "add_collector (PStatCollectorDef_ctor (- 1) ''Bad'') (PStatClientData_ctor (Some 7) :: unit PStatClientData)
     = (Some AllocError,
        (PStatClientData_ctor (Some 7))\<lparr>collectors := replicate vector_max_size None\<rparr>)"
proof -
  have "add_collector (PStatCollectorDef_ctor (- 1) ''Bad'') (PStatClientData_ctor (Some 7) :: unit PStatClientData)
     = (Some AllocError, (PStatClientData_ctor (Some 7))\<lparr>collectors :=
          collectors (PStatClientData_ctor (Some 7) :: unit PStatClientData)
            @ replicate (vector_max_size - length (collectors (PStatClientData_ctor (Some 7) :: unit PStatClientData))) None\<rparr>)"
    by (rule add_collector_negative) (simp_all add: PStatCollectorDef_ctor_def PStatClientData_ctor_def)
  then show ?thesis by (simp add: PStatClientData_ctor_def)
qed

text \<open>
  Claim C2. A lookup of an id that is negative, past the end of the table or whose
  slot is null yields the sentinel definition with id \<open>- 1\<close> and name \<open>Unknown\<close>,
  the name \<open>Unknown\<close>, and \<^verbatim>\<open>has_collector\<close> is false; a lookup of an id whose slot
  holds a definition yields that definition and its name, and \<^verbatim>\<open>has_collector\<close> is
  true. No lookup has an error result.
\<close>

theorem lookup_of_undefined_id_is_sentinel:
  "(idx < 0 \<or> int (length (collectors s)) \<le> idx \<or> collectors s ! nat idx = None \<longrightarrow>
      get_collector_def s idx = null_collector \<and>
      def_index (get_collector_def s idx) = - 1 \<and>
      def_name (get_collector_def s idx) = ''Unknown'' \<and>
      get_collector_name s idx = ''Unknown'' \<and>
      \<not> has_collector s idx) \<and>
   (0 \<le> idx \<and> idx < int (length (collectors s)) \<and> collectors s ! nat idx = Some d \<longrightarrow>
      get_collector_def s idx = d \<and>
      get_collector_name s idx = def_name d \<and>
      has_collector s idx)"
  by (auto simp add: has_collector_def get_collector_def_def get_collector_name_def
        null_collector_def PStatCollectorDef_ctor_def)

theorem lookup_of_undefined_id_is_sentinel_witness:
  "(get_collector_def chain_session (- 5) = null_collector \<and>
    get_collector_name chain_session (- 5) = ''Unknown'' \<and> \<not> has_collector chain_session (- 5)) \<and>
   (get_collector_def chain_session 9 = null_collector \<and>
    get_collector_name chain_session 9 = ''Unknown'' \<and> \<not> has_collector chain_session 9) \<and>
   (collectors chain_session ! nat 3 = None \<and> def_index (get_collector_def chain_session 3) = - 1 \<and>
    def_name (get_collector_def chain_session 3) = ''Unknown'' \<and> \<not> has_collector chain_session 3) \<and>
   (collectors chain_session ! nat 2 =
      Some \<lparr>def_index = 2, def_name = ''Cull'', def_parent_index = 1\<rparr> \<and>
    get_collector_def chain_session 2 = \<lparr>def_index = 2, def_name = ''Cull'', def_parent_index = 1\<rparr> \<and>
    get_collector_name chain_session 2 = ''Cull'' \<and> has_collector chain_session 2)"
  using lookup_of_undefined_id_is_sentinel [of "- 5" chain_session]
        lookup_of_undefined_id_is_sentinel [of 9 chain_session]
        lookup_of_undefined_id_is_sentinel [of 3 chain_session]
        lookup_of_undefined_id_is_sentinel
          [of 2 chain_session "\<lparr>def_index = 2, def_name = ''Cull'', def_parent_index = 1\<rparr>"]
  by (simp add: chain_session_def null_collector_def PStatCollectorDef_ctor_def)

section \<open>Ancestor distance\<close>

lemma get_child_distance_same: "get_child_distance s p p = Some 0"
  by (subst get_child_distance.simps) simp

lemma get_child_distance_stop:
  "p \<noteq> c \<Longrightarrow> \<not> has_collector s c \<or> c = 0 \<Longrightarrow> get_child_distance s p c = Some (- 1)"
  by (subst get_child_distance.simps) auto

lemma get_child_distance_step:
  "p \<noteq> c \<Longrightarrow> has_collector s c \<Longrightarrow> c \<noteq> 0 \<Longrightarrow>
     get_child_distance s p c =
       Option.bind (get_child_distance s p (def_parent_index (get_collector_def s c)))
         (\<lambda>dist. if dist = - 1 then Some (- 1) else Some (dist + 1))"
  by (subst get_child_distance.simps) simp

lemma get_child_distance_hops:
  "(\<forall>j<k. ancestor s j c \<noteq> p \<and> has_collector s (ancestor s j c) \<and> ancestor s j c \<noteq> 0) \<Longrightarrow>
   ancestor s k c = p \<Longrightarrow> get_child_distance s p c = Some (int k)"
proof (induction k arbitrary: c)
  case 0
  then show ?case by (simp add: get_child_distance_same)
next
  case (Suc k)
  let ?c' = "def_parent_index (get_collector_def s c)"
  from Suc.prems(1) have here: "c \<noteq> p" "has_collector s c" "c \<noteq> 0"
    by (auto dest: spec [of _ 0])
  have up: "\<forall>j<k. ancestor s j ?c' \<noteq> p \<and> has_collector s (ancestor s j ?c') \<and> ancestor s j ?c' \<noteq> 0"
  proof (intro allI impI)
    fix j assume "j < k"
    then have "Suc j < Suc k" by simp
    with Suc.prems(1) show "ancestor s j ?c' \<noteq> p \<and> has_collector s (ancestor s j ?c') \<and> ancestor s j ?c' \<noteq> 0"
      by (auto dest!: spec [of _ "Suc j"])
  qed
  have "ancestor s k ?c' = p" using Suc.prems(2) by simp
  with up have "get_child_distance s p ?c' = Some (int k)" by (rule Suc.IH)
  then show ?case using here by (simp add: get_child_distance_step)
qed

lemma get_child_distance_miss:
  "(\<forall>j<k. ancestor s j c \<noteq> p \<and> has_collector s (ancestor s j c) \<and> ancestor s j c \<noteq> 0) \<Longrightarrow>
   ancestor s k c \<noteq> p \<Longrightarrow> \<not> has_collector s (ancestor s k c) \<or> ancestor s k c = 0 \<Longrightarrow>
   get_child_distance s p c = Some (- 1)"
proof (induction k arbitrary: c)
  case 0
  then show ?case by (simp add: get_child_distance_stop)
next
  case (Suc k)
  let ?c' = "def_parent_index (get_collector_def s c)"
  from Suc.prems(1) have here: "c \<noteq> p" "has_collector s c" "c \<noteq> 0"
    by (auto dest: spec [of _ 0])
  have up: "\<forall>j<k. ancestor s j ?c' \<noteq> p \<and> has_collector s (ancestor s j ?c') \<and> ancestor s j ?c' \<noteq> 0"
  proof (intro allI impI)
    fix j assume "j < k"
    then have "Suc j < Suc k" by simp
    with Suc.prems(1) show "ancestor s j ?c' \<noteq> p \<and> has_collector s (ancestor s j ?c') \<and> ancestor s j ?c' \<noteq> 0"
      by (auto dest!: spec [of _ "Suc j"])
  qed
  have "ancestor s k ?c' \<noteq> p" "\<not> has_collector s (ancestor s k ?c') \<or> ancestor s k ?c' = 0"
    using Suc.prems(2,3) by simp_all
  with up have "get_child_distance s p ?c' = Some (- 1)" by (rule Suc.IH)
  then show ?case using here by (simp add: get_child_distance_step)
qed

lemma chain_has: "has_collector chain_session i \<longleftrightarrow> i = 0 \<or> i = 1 \<or> i = 2 \<or> i = 4"
proof -
  have "0 \<le> i \<and> i < 5 \<longleftrightarrow> i = 0 \<or> i = 1 \<or> i = 2 \<or> i = 3 \<or> i = 4" by auto
  then show ?thesis
    by (auto simp add: has_collector_def chain_session_def)
qed

lemma chain_parent:
  "def_parent_index (get_collector_def chain_session 0) = 0"
  "def_parent_index (get_collector_def chain_session 1) = 0"
  "def_parent_index (get_collector_def chain_session 2) = 1"
  "def_parent_index (get_collector_def chain_session 4) = 3"
  by (simp_all add: get_collector_def_def chain_has) (simp_all add: chain_session_def)

text \<open>
  Claim C3, as stated, has the recursive case return
  \<open>1 + get_child_distance parent (parent_of child)\<close>. The code tests the inner result
  first and passes a \<open>- 1\<close> on unchanged: for the child \<open>Draw\<close> (id 1) of the root and
  the stranger 2 the code answers \<open>- 1\<close>, where one more than the inner result is 0.
\<close>

theorem get_child_distance_not_one_plus_inner:
  "get_child_distance chain_session 2 1 \<noteq>
     map_option ((+) 1)
       (get_child_distance chain_session 2 (def_parent_index (get_collector_def chain_session 1)))"
  by (simp add: get_child_distance.simps chain_has chain_parent)

text \<open>
  Claim C3, amended. \<^verbatim>\<open>get_child_distance\<close> returns 0 when parent and child are the
  same id, defined or not; \<open>- 1\<close> when they differ and the child is undefined or is 0;
  and otherwise, with \<open>d\<close> the result for the parent of the child, \<open>- 1\<close> when
  \<open>d = - 1\<close> and \<open>d + 1\<close> when not. So the result is the number \<open>k\<close> of upward hops
  when the parent is the first collector equal to it on the walk, reached after \<open>k\<close>
  hops over defined collectors other than 0, and \<open>- 1\<close> when the walk comes to the
  root or to an undefined collector without meeting the parent.
\<close>

theorem get_child_distance_counts_hops:
  "get_child_distance s p p = Some 0 \<and>
   (p \<noteq> c \<and> (\<not> has_collector s c \<or> c = 0) \<longrightarrow> get_child_distance s p c = Some (- 1)) \<and>
   (p \<noteq> c \<and> has_collector s c \<and> c \<noteq> 0 \<longrightarrow>
      get_child_distance s p c =
        map_option (\<lambda>d. if d = - 1 then - 1 else d + 1)
          (get_child_distance s p (def_parent_index (get_collector_def s c)))) \<and>
   ((\<forall>j<k. ancestor s j c \<noteq> p \<and> has_collector s (ancestor s j c) \<and> ancestor s j c \<noteq> 0) \<and>
    ancestor s k c = p \<longrightarrow> get_child_distance s p c = Some (int k)) \<and>
   ((\<forall>j<k. ancestor s j c \<noteq> p \<and> has_collector s (ancestor s j c) \<and> ancestor s j c \<noteq> 0) \<and>
    ancestor s k c \<noteq> p \<and> (\<not> has_collector s (ancestor s k c) \<or> ancestor s k c = 0) \<longrightarrow>
      get_child_distance s p c = Some (- 1))"
proof (intro conjI impI)
  show "get_child_distance s p p = Some 0" by (rule get_child_distance_same)
next
  assume "p \<noteq> c \<and> (\<not> has_collector s c \<or> c = 0)"
  then show "get_child_distance s p c = Some (- 1)" by (simp add: get_child_distance_stop)
next
  assume a: "p \<noteq> c \<and> has_collector s c \<and> c \<noteq> 0"
  have "Option.bind (get_child_distance s p (def_parent_index (get_collector_def s c)))
          (\<lambda>dist. if dist = - 1 then Some (- 1) else Some (dist + 1)) =
        map_option (\<lambda>d. if d = - 1 then - 1 else d + 1)
          (get_child_distance s p (def_parent_index (get_collector_def s c)))"
    by (cases "get_child_distance s p (def_parent_index (get_collector_def s c))") simp_all
  then show "get_child_distance s p c =
        map_option (\<lambda>d. if d = - 1 then - 1 else d + 1)
          (get_child_distance s p (def_parent_index (get_collector_def s c)))"
    using a by (simp add: get_child_distance_step)
next
  assume "(\<forall>j<k. ancestor s j c \<noteq> p \<and> has_collector s (ancestor s j c) \<and> ancestor s j c \<noteq> 0) \<and>
    ancestor s k c = p"
  then show "get_child_distance s p c = Some (int k)"
    using get_child_distance_hops [of k s c p] by blast
next
  assume "(\<forall>j<k. ancestor s j c \<noteq> p \<and> has_collector s (ancestor s j c) \<and> ancestor s j c \<noteq> 0) \<and>
    ancestor s k c \<noteq> p \<and> (\<not> has_collector s (ancestor s k c) \<or> ancestor s k c = 0)"
  then show "get_child_distance s p c = Some (- 1)"
    using get_child_distance_miss [of k s c p] by blast
qed

theorem get_child_distance_counts_hops_witness:
  "get_child_distance chain_session 9 9 = Some 0 \<and>
   ((9::int) \<noteq> 3 \<and> \<not> has_collector chain_session 3 \<and> get_child_distance chain_session 9 3 = Some (- 1)) \<and>
   ((2::int) \<noteq> 0 \<and> get_child_distance chain_session 2 0 = Some (- 1)) \<and>
   ((1::int) \<noteq> 2 \<and> has_collector chain_session 2 \<and>
      get_child_distance chain_session 1 2 =
        map_option (\<lambda>d. if d = - 1 then - 1 else d + 1) (get_child_distance chain_session 1 1)) \<and>
   (ancestor chain_session 2 2 = 0 \<and> get_child_distance chain_session 0 2 = Some 2) \<and>
   (ancestor chain_session 1 4 = 3 \<and> \<not> has_collector chain_session 3 \<and>
      get_child_distance chain_session 2 4 = Some (- 1))"
proof -
  have two: "\<And>P. (\<forall>j<2::nat. P j) \<longleftrightarrow> P 0 \<and> P 1"
    by (auto simp add: less_2_cases_iff)
  have one: "\<And>P. (\<forall>j<1::nat. P j) \<longleftrightarrow> P 0"
    by auto
  have anc: "ancestor chain_session 2 2 = 0" "ancestor chain_session 1 2 = 1"
    "ancestor chain_session 1 4 = 3"
    by (simp_all add: numeral_2_eq_2 chain_parent)
  have c1: "get_child_distance chain_session 9 9 = Some 0"
    using get_child_distance_counts_hops [of chain_session 9 3 0] by (rule conjunct1)
  have c2: "get_child_distance chain_session 9 3 = Some (- 1)"
    using get_child_distance_counts_hops [of chain_session 9 3 0, THEN conjunct2, THEN conjunct1]
    by (simp add: chain_has)
  have c3: "get_child_distance chain_session 2 0 = Some (- 1)"
    using get_child_distance_counts_hops [of chain_session 2 0 0, THEN conjunct2, THEN conjunct1]
    by simp
  have c4: "get_child_distance chain_session 1 2 =
        map_option (\<lambda>d. if d = - 1 then - 1 else d + 1) (get_child_distance chain_session 1 1)"
    using get_child_distance_counts_hops
            [of chain_session 1 2 0, THEN conjunct2, THEN conjunct2, THEN conjunct1]
    by (simp add: chain_has chain_parent)
  have c5: "get_child_distance chain_session 0 2 = Some 2"
    using get_child_distance_counts_hops
            [of chain_session 0 2 2, THEN conjunct2, THEN conjunct2, THEN conjunct2, THEN conjunct1]
    by (simp add: two anc chain_has chain_parent)
  have c6: "get_child_distance chain_session 2 4 = Some (- 1)"
    using get_child_distance_counts_hops
            [of chain_session 2 4 1, THEN conjunct2, THEN conjunct2, THEN conjunct2, THEN conjunct2]
    by (simp add: one anc chain_has chain_parent)
  show ?thesis
    using c1 c2 c3 c4 c5 c6 anc by (simp add: chain_has)
qed

section \<open>Full names\<close>

lemma get_collector_fullname_undefined:
  "\<not> has_collector s idx \<Longrightarrow> get_collector_fullname s idx = Some ''Unknown''"
  by (subst get_collector_fullname.simps) simp

lemma get_collector_fullname_top:
  "has_collector s idx \<Longrightarrow> def_parent_index (get_collector_def s idx) = 0 \<Longrightarrow>
     get_collector_fullname s idx = Some (def_name (get_collector_def s idx))"
  by (subst get_collector_fullname.simps) (simp add: get_collector_def_def)

lemma get_collector_fullname_step:
  "has_collector s idx \<Longrightarrow> def_parent_index (get_collector_def s idx) \<noteq> 0 \<Longrightarrow>
     get_collector_fullname s idx =
       map_option (\<lambda>p. p @ '':'' @ def_name (get_collector_def s idx))
         (get_collector_fullname s (def_parent_index (get_collector_def s idx)))"
  by (subst get_collector_fullname.simps)
     (cases "get_collector_fullname s (def_parent_index (get_collector_def s idx))";
      simp add: get_collector_def_def)

lemma chain_name:
  "def_name (get_collector_def chain_session 0) = ''Frame''"
  "def_name (get_collector_def chain_session 1) = ''Draw''"
  "def_name (get_collector_def chain_session 2) = ''Cull''"
  "def_name (get_collector_def chain_session 4) = ''Lost''"
  by (simp_all add: get_collector_def_def chain_has) (simp_all add: chain_session_def)

text \<open>
  Claim C4. For a defined collector \<^verbatim>\<open>get_collector_fullname\<close> returns the bare name
  when the parent id is 0, and the full name of the parent, a colon and the name
  otherwise. On a chain root (id 0), \<open>b\<close> below the root, \<open>c\<close> below \<open>b\<close>, it returns
  the name of \<open>b\<close> for \<open>b\<close> and the names of \<open>b\<close> and \<open>c\<close> joined by a colon for \<open>c\<close>:
  the name of the root is left out.
\<close>

theorem get_collector_fullname_joins_ancestors:
  "(has_collector s idx \<and> def_parent_index (get_collector_def s idx) = 0 \<longrightarrow>
      get_collector_fullname s idx = Some (def_name (get_collector_def s idx))) \<and>
   (has_collector s idx \<and> def_parent_index (get_collector_def s idx) \<noteq> 0 \<longrightarrow>
      get_collector_fullname s idx =
        map_option (\<lambda>p. p @ '':'' @ def_name (get_collector_def s idx))
          (get_collector_fullname s (def_parent_index (get_collector_def s idx)))) \<and>
   (has_collector s b \<and> def_parent_index (get_collector_def s b) = 0 \<and> b \<noteq> 0 \<and>
    has_collector s c \<and> def_parent_index (get_collector_def s c) = b \<longrightarrow>
      get_collector_fullname s b = Some (def_name (get_collector_def s b)) \<and>
      get_collector_fullname s c =
        Some (def_name (get_collector_def s b) @ '':'' @ def_name (get_collector_def s c)))"
  by (simp add: get_collector_fullname_top get_collector_fullname_step)

theorem get_collector_fullname_joins_ancestors_witness:
  "(has_collector chain_session 1 \<and> def_parent_index (get_collector_def chain_session 1) = 0 \<and>
    get_collector_fullname chain_session 1 = Some ''Draw'') \<and>
   (has_collector chain_session 2 \<and> def_parent_index (get_collector_def chain_session 2) = 1 \<and>
    get_collector_fullname chain_session 2 =
      map_option (\<lambda>p. p @ '':'' @ ''Cull'') (get_collector_fullname chain_session 1)) \<and>
   get_collector_fullname chain_session 2 = Some ''Draw:Cull''"
proof -
  have c1: "get_collector_fullname chain_session 1 = Some ''Draw''"
    using get_collector_fullname_joins_ancestors [of chain_session 1 1 2, THEN conjunct1]
    by (simp add: chain_has chain_parent chain_name)
  have c2: "get_collector_fullname chain_session 2 =
      map_option (\<lambda>p. p @ '':'' @ ''Cull'') (get_collector_fullname chain_session 1)"
    using get_collector_fullname_joins_ancestors
            [of chain_session 2 1 2, THEN conjunct2, THEN conjunct1]
    by (simp add: chain_has chain_parent chain_name)
  have c3: "get_collector_fullname chain_session 2 = Some ''Draw:Cull''"
    using get_collector_fullname_joins_ancestors
            [of chain_session 2 1 2, THEN conjunct2, THEN conjunct2]
    by (simp add: chain_has chain_parent chain_name)
  show ?thesis using c1 c2 c3 by (simp add: chain_has chain_parent)
qed

section \<open>Termination of the full-name recursion\<close>

lemma parent_links_finite: "finite (parent_links s)"
proof -
  have "parent_links s \<subseteq>
          (\<lambda>c. (def_parent_index (get_collector_def s c), c)) ` {0..<int (length (collectors s))}"
    by (auto simp add: parent_links_def has_collector_def)
  then show ?thesis by (rule finite_subset) simp
qed

lemma get_collector_fullname_returns:
  assumes "acyclic (parent_links s)"
  shows "\<exists>y. get_collector_fullname s idx = Some y"
proof -
  have "wf (parent_links s)"
    using parent_links_finite assms by (rule finite_acyclic_wf)
  then show ?thesis
  proof (induction idx rule: wf_induct_rule)
    case (less c)
    let ?p = "def_parent_index (get_collector_def s c)"
    show ?case
    proof (cases "has_collector s c")
      case False
      then show ?thesis by (simp add: get_collector_fullname_undefined)
    next
      case True
      show ?thesis
      proof (cases "?p = 0")
        case True
        with \<open>has_collector s c\<close> show ?thesis by (simp add: get_collector_fullname_top)
      next
        case False
        have "\<exists>y. get_collector_fullname s ?p = Some y"
        proof (cases "has_collector s ?p")
          case True
          with False \<open>has_collector s c\<close> have "(?p, c) \<in> parent_links s"
            by (simp add: parent_links_def)
          then show ?thesis by (rule less.IH)
        next
          case False
          then show ?thesis by (simp add: get_collector_fullname_undefined)
        qed
        with False \<open>has_collector s c\<close> show ?thesis
          by (auto simp add: get_collector_fullname_step)
      qed
    qed
  qed
qed

lemma parent_links_acyclic_if_parents_smaller:
  assumes "\<forall>c. has_collector s c \<and> def_parent_index (get_collector_def s c) \<noteq> 0
             \<longrightarrow> def_parent_index (get_collector_def s c) < c"
  shows "acyclic (parent_links s)"
proof -
  have tr: "trans {(p, c). p < (c::int)}"
    by (auto intro: transI)
  have "acyclic {(p, c). p < (c::int)}"
    by (rule acyclicI) (simp add: trancl_id [OF tr])
  moreover have "parent_links s \<subseteq> {(p, c). p < c}"
    using assms by (auto simp add: parent_links_def)
  ultimately show ?thesis by (rule acyclic_subset)
qed

lemma chain_acyclic: "acyclic (parent_links chain_session)"
  by (rule parent_links_acyclic_if_parents_smaller) (auto simp add: chain_has chain_parent)

lemma loop_has: "has_collector loop_session 1" "has_collector loop_session 2"
  by (simp_all add: has_collector_def loop_session_def)

lemma loop_collectors:
  "collectors loop_session =
     [None,
      Some \<lparr>def_index = 1, def_name = ''Ping'', def_parent_index = 2\<rparr>,
      Some \<lparr>def_index = 2, def_name = ''Pong'', def_parent_index = 1\<rparr>]"
  by (simp add: loop_session_def)

lemma get_collector_fullname_cycle_never_returns:
  "get_collector_fullname loop_session 1 = None"
proof -
  have "\<not> (s = loop_session \<and> (idx = 1 \<or> idx = 2))"
    if r: "get_collector_fullname s idx = Some y"
    for s :: "unit PStatClientData" and idx y
  proof (rule get_collector_fullname.raw_induct
      [where P = "\<lambda>s idx y. \<not> (s = loop_session \<and> (idx = 1 \<or> idx = 2))"
         and s = s and idx = idx and y = y])
    show "get_collector_fullname s idx = Some y" by (rule r)
  next
    fix f :: "unit PStatClientData \<Rightarrow> int \<Rightarrow> string option" and s idx y
    assume IH: "\<And>s idx y. f s idx = Some y \<Longrightarrow> \<not> (s = loop_session \<and> (idx = 1 \<or> idx = 2))"
    assume eq:
      "(if \<not> has_collector s idx then Some ''Unknown''
        else if def_parent_index (the (collectors s ! nat idx)) = 0
          then Some (def_name (the (collectors s ! nat idx)))
          else Option.bind (f s (def_parent_index (the (collectors s ! nat idx))))
                 (\<lambda>p. Some (p @ '':'' @ def_name (the (collectors s ! nat idx))))) = Some y"
    show "\<not> (s = loop_session \<and> (idx = 1 \<or> idx = 2))"
    proof
      assume a: "s = loop_session \<and> (idx = 1 \<or> idx = 2)"
      then consider "idx = 1" | "idx = 2" by blast
      then show False
      proof cases
        case 1
        with a eq obtain z where "f loop_session 2 = Some z"
          by (auto simp add: loop_has loop_collectors split: bind_splits)
        then show False using IH by blast
      next
        case 2
        with a eq obtain z where "f loop_session 1 = Some z"
          by (auto simp add: loop_has loop_collectors split: bind_splits)
        then show False using IH by blast
      qed
    qed
  qed
  then show ?thesis by (cases "get_collector_fullname loop_session 1") auto
qed


text \<open>
  Claim C5. In every registry whose parent links between defined collectors form no
  cycle, \<^verbatim>\<open>get_collector_fullname\<close> returns for every id. An id that is undefined or
  out of range gives \<open>Unknown\<close> at once, and an undefined or out-of-range parent ends
  the recursion in the same way: the full name is then \<open>Unknown\<close>, a colon and the
  name.
\<close>

theorem get_collector_fullname_terminates:
  "(acyclic (parent_links s) \<longrightarrow> (\<exists>y. get_collector_fullname s idx = Some y)) \<and>
   (\<not> has_collector s idx \<longrightarrow> get_collector_fullname s idx = Some ''Unknown'') \<and>
   (has_collector s idx \<and> def_parent_index (get_collector_def s idx) \<noteq> 0 \<and>
    \<not> has_collector s (def_parent_index (get_collector_def s idx)) \<longrightarrow>
      get_collector_fullname s idx = Some (''Unknown:'' @ def_name (get_collector_def s idx)))"
  by (simp add: get_collector_fullname_returns get_collector_fullname_undefined
        get_collector_fullname_step)

theorem get_collector_fullname_terminates_witness:
  "acyclic (parent_links chain_session) \<and>
   (\<exists>y. get_collector_fullname chain_session 2 = Some y) \<and>
   (\<not> has_collector chain_session (- 3) \<and> get_collector_fullname chain_session (- 3) = Some ''Unknown'') \<and>
   (\<not> has_collector chain_session 1000 \<and> get_collector_fullname chain_session 1000 = Some ''Unknown'') \<and>
   (has_collector chain_session 4 \<and> def_parent_index (get_collector_def chain_session 4) = 3 \<and>
    \<not> has_collector chain_session 3 \<and>
    get_collector_fullname chain_session 4 = Some ''Unknown:Lost'')"
proof -
  have c1: "\<exists>y. get_collector_fullname chain_session 2 = Some y"
    using get_collector_fullname_terminates [of chain_session 2, THEN conjunct1] chain_acyclic
    by (rule mp)
  have c2: "get_collector_fullname chain_session (- 3) = Some ''Unknown''"
    using get_collector_fullname_terminates [of chain_session "- 3", THEN conjunct2, THEN conjunct1]
    by (simp add: chain_has)
  have c3: "get_collector_fullname chain_session 1000 = Some ''Unknown''"
    using get_collector_fullname_terminates [of chain_session 1000, THEN conjunct2, THEN conjunct1]
    by (simp add: chain_has)
  have c4: "get_collector_fullname chain_session 4 = Some ''Unknown:Lost''"
    using get_collector_fullname_terminates [of chain_session 4, THEN conjunct2, THEN conjunct2]
    by (simp add: chain_has chain_parent chain_name)
  show ?thesis
    using c1 c2 c3 c4 chain_acyclic by (simp add: chain_has chain_parent)
qed

section \<open>The thread table\<close>

lemma has_thread_slot_name: "has_thread s i \<longleftrightarrow> slot_name s i \<noteq> []"
  by (auto simp add: has_thread_def slot_name_def)

lemma grown_nth:
  "k < length (xs @ replicate (n - length xs) x) \<Longrightarrow>
     (xs @ replicate (n - length xs) x) ! k = (if k < length xs then xs ! k else x)"
  by (simp add: nth_append)

lemma get_thread_name_slot_name:
  "get_thread_name s i = (if slot_name s i = [] then ''Unknown'' else slot_name s i)"
  by (simp add: get_thread_name_def has_thread_def slot_name_def)

lemma define_thread_too_large:
  "1000 \<le> i \<Longrightarrow> define_thread mk i nm s = (Some ValidationError, s)"
  by (simp add: define_thread_def)

lemma define_thread_negative:
  assumes "i < 0" and "- (2 ^ 31) \<le> i" and "length (threads s) \<le> vector_max_size"
  shows "define_thread mk i nm s =
           (Some AllocError, s\<lparr>threads :=
              threads s @ replicate (vector_max_size - length (threads s)) Thread_ctor\<rparr>)"
proof -
  have big: "vector_max_size \<le> size_t_of_int i"
    using assms(1,2) by (rule size_t_of_int_neg)
  then have "length (threads s) \<le> size_t_of_int i"
    using assms(3) by simp
  with big have "grow_slots Thread_ctor (threads s) (size_t_of_int i) =
      (Some AllocError, threads s @ replicate (vector_max_size - length (threads s)) Thread_ctor)"
    by (rule grow_slots_fail)
  then show ?thesis using assms(1) by (simp add: define_thread_def)
qed

lemma define_thread_in_range:
  assumes "0 \<le> i" and "i < 1000"
  shows "define_thread mk i nm s =
           (None, s\<lparr>threads :=
              (threads s @ replicate (Suc (nat i) - length (threads s)) Thread_ctor)
                [nat i := \<lparr>thread_name = (if nm \<noteq> [] then nm else slot_name s i),
                           thread_data = (case slot_data s i of None \<Rightarrow> Some mk | Some d \<Rightarrow> Some d)\<rparr>]\<rparr>)"
proof -
  define ts where "ts = threads s @ replicate (Suc (nat i) - length (threads s)) Thread_ctor"
  define e1 where "e1 = (if nm \<noteq> [] then (ts ! nat i)\<lparr>thread_name := nm\<rparr> else ts ! nat i)"
  define e2 where "e2 = (if thread_data e1 = None then e1\<lparr>thread_data := Some mk\<rparr> else e1)"
  define ts1 where "ts1 = (if nm \<noteq> [] then ts[nat i := (ts ! nat i)\<lparr>thread_name := nm\<rparr>] else ts)"
  define ts2 where "ts2 = (if thread_data (ts1 ! nat i) = None
                           then ts1[nat i := (ts1 ! nat i)\<lparr>thread_data := Some mk\<rparr>] else ts1)"
  have n: "size_t_of_int i = nat i"
    using assms by (rule size_t_of_int_nonneg)
  have "nat i < vector_max_size"
    using assms by (simp add: vector_max_size_def)
  then have g: "grow_slots Thread_ctor (threads s) (nat i) = (None, ts)"
    unfolding ts_def by (rule grow_slots_ok)
  have len: "nat i < length ts" by (auto simp add: ts_def)
  have old: "ts ! nat i = \<lparr>thread_name = slot_name s i, thread_data = slot_data s i\<rparr>"
    using assms(1) len unfolding ts_def
    by (subst grown_nth) (auto simp add: slot_name_def slot_data_def Thread_ctor_def)
  have s1: "ts1 = ts[nat i := e1]"
    by (simp add: ts1_def e1_def)
  then have at1: "ts1 ! nat i = e1"
    using len by simp
  have s2: "ts2 = ts[nat i := e2]"
    unfolding ts2_def at1 by (simp add: s1 e2_def)
  have e2: "e2 = \<lparr>thread_name = (if nm \<noteq> [] then nm else slot_name s i),
                  thread_data = (case slot_data s i of None \<Rightarrow> Some mk | Some d \<Rightarrow> Some d)\<rparr>"
    by (cases "slot_data s i") (simp_all add: e2_def e1_def old)
  have "define_thread mk i nm s = (None, s\<lparr>threads := ts2\<rparr>)"
    using assms(2) by (simp add: define_thread_def n g Let_def ts2_def ts1_def)
  then show ?thesis
    unfolding s2 e2 ts_def .
qed

lemma define_thread_accepts:
  "0 \<le> i \<Longrightarrow> i < 1000 \<Longrightarrow> fst (define_thread mk i nm s) = None"
  by (simp add: define_thread_in_range)

lemma define_thread_slot_name:
  "0 \<le> i \<Longrightarrow> i < 1000 \<Longrightarrow>
     slot_name (snd (define_thread mk i nm s)) i = (if nm \<noteq> [] then nm else slot_name s i)"
  by (auto simp add: define_thread_in_range slot_name_def)

lemma define_thread_slot_data:
  "0 \<le> i \<Longrightarrow> i < 1000 \<Longrightarrow>
     slot_data (snd (define_thread mk i nm s)) i =
       (case slot_data s i of None \<Rightarrow> Some mk | Some d \<Rightarrow> Some d)"
  by (auto simp add: define_thread_in_range slot_data_def)

lemma define_thread_has_slot:
  "0 \<le> i \<Longrightarrow> i < 1000 \<Longrightarrow> nat i < length (threads (snd (define_thread mk i nm s)))"
  by (auto simp add: define_thread_in_range)

lemma define_thread_other_slots:
  assumes "0 \<le> i" and "i < 1000" and "j \<noteq> i"
  shows "slot_name (snd (define_thread mk i nm s)) j = slot_name s j"
    and "slot_data (snd (define_thread mk i nm s)) j = slot_data s j"
proof -
  let ?ts = "threads s @ replicate (Suc (nat i) - length (threads s)) Thread_ctor"
  have nth: "?ts ! nat j = (if nat j < length (threads s) then threads s ! nat j else Thread_ctor)"
    if "nat j < length ?ts"
    using that by (rule grown_nth)
  have ne: "0 \<le> j \<Longrightarrow> nat i \<noteq> nat j"
    using assms(1,3) by simp
  have ge: "length (threads s) \<le> length ?ts"
    by simp
  show "slot_name (snd (define_thread mk i nm s)) j = slot_name s j"
    using assms(1,2) ne nth ge
    by (auto simp add: define_thread_in_range slot_name_def Thread_ctor_def simp del: length_append)
  show "slot_data (snd (define_thread mk i nm s)) j = slot_data s j"
    using assms(1,2) ne nth ge
    by (auto simp add: define_thread_in_range slot_data_def Thread_ctor_def simp del: length_append)
qed

lemma define_thread_keeps_rest:
  "alive_flag (snd (define_thread mk i nm s)) = alive_flag s"
  "reader (snd (define_thread mk i nm s)) = reader s"
  "collectors (snd (define_thread mk i nm s)) = collectors s"
  by (simp_all add: define_thread_def Let_def split: prod.splits option.splits)

lemma define_thread_seq_name:
  "0 \<le> i \<Longrightarrow> i < 1000 \<Longrightarrow>
     slot_name (define_thread_seq i calls s) i =
       (if filter (\<lambda>nm. nm \<noteq> []) (map snd calls) = [] then slot_name s i
        else last (filter (\<lambda>nm. nm \<noteq> []) (map snd calls)))"
proof (induction calls arbitrary: s)
  case Nil
  then show ?case by simp
next
  case (Cons c calls)
  obtain mk nm where c: "c = (mk, nm)" by (cases c)
  show ?case
    using Cons.prems by (simp add: c Cons.IH define_thread_slot_name)
qed

lemma define_thread_seq_data:
  "0 \<le> i \<Longrightarrow> i < 1000 \<Longrightarrow>
     slot_data (define_thread_seq i calls s) i =
       (case slot_data s i of
          Some d \<Rightarrow> Some d
        | None \<Rightarrow> (case calls of [] \<Rightarrow> None | c # _ \<Rightarrow> Some (fst c)))"
proof (induction calls arbitrary: s)
  case Nil
  then show ?case by (simp split: option.split)
next
  case (Cons c calls)
  obtain mk nm where c: "c = (mk, nm)" by (cases c)
  show ?case
    using Cons.prems
    by (simp add: c Cons.IH define_thread_slot_data split: option.split)
qed

text \<open>
  Claim C6, as stated, speaks of every thread id. \<^verbatim>\<open>define_thread\<close> opens with
  \<^verbatim>\<open>nassertv(thread_index < 1000)\<close>: a call for id 1000 with the name \<open>Render\<close> is
  refused, the name is not stored and no frame store is made.
\<close>

theorem define_thread_id_1000_stores_nothing:
  "fst (define_thread (10::nat) 1000 ''Render'' (PStatClientData_ctor (Some 7))) =
     Some ValidationError \<and>
   slot_name (snd (define_thread (10::nat) 1000 ''Render'' (PStatClientData_ctor (Some 7)))) 1000
     \<noteq> ''Render'' \<and>
   get_thread_name (snd (define_thread (10::nat) 1000 ''Render'' (PStatClientData_ctor (Some 7)))) 1000
     = ''Unknown'' \<and>
   slot_data (snd (define_thread (10::nat) 1000 ''Render'' (PStatClientData_ctor (Some 7)))) 1000
     = None"
  by (simp add: define_thread_too_large slot_name_def slot_data_def get_thread_name_def
        has_thread_def PStatClientData_ctor_def)

text \<open>
  Claim C6, amended to the ids that \<^verbatim>\<open>define_thread\<close> accepts. A call for an id from
  0 to 999 is accepted; with a non-empty name it overwrites the stored name, with the
  empty name it leaves the stored name as it is; it makes a frame store when the id
  has none and keeps the store that is there otherwise. After any run of such calls
  for one id the name is the last non-empty name of the run (the name from before when
  there is none), and the store is the one from before or, when there was none, the
  one made by the first call. So the empty name followed by \<open>Render\<close> leaves
  \<open>Render\<close>, and calls with the empty name after that do not clear it.
\<close>

theorem define_thread_backfills_name:
  "0 \<le> i \<and> i < 1000 \<longrightarrow>
     fst (define_thread mk i nm s) = None \<and>
     slot_name (snd (define_thread mk i nm s)) i = (if nm \<noteq> [] then nm else slot_name s i) \<and>
     slot_data (snd (define_thread mk i nm s)) i =
       (case slot_data s i of None \<Rightarrow> Some mk | Some d \<Rightarrow> Some d) \<and>
     slot_name (define_thread_seq i calls s) i =
       (if filter (\<lambda>nm. nm \<noteq> []) (map snd calls) = [] then slot_name s i
        else last (filter (\<lambda>nm. nm \<noteq> []) (map snd calls))) \<and>
     slot_data (define_thread_seq i calls s) i =
       (case slot_data s i of
          Some d \<Rightarrow> Some d
        | None \<Rightarrow> (case calls of [] \<Rightarrow> None | c # _ \<Rightarrow> Some (fst c))) \<and>
     get_thread_name (define_thread_seq i [(mk1, []), (mk2, ''Render'')] s) i = ''Render'' \<and>
     get_thread_name
       (define_thread_seq i ([(mk1, []), (mk2, ''Render'')] @ map (\<lambda>m. (m, [])) later) s) i
       = ''Render''"
proof
  assume r: "0 \<le> i \<and> i < 1000"
  then have r1: "0 \<le> i" and r2: "i < 1000" by simp_all
  have none: "filter (\<lambda>nm. nm \<noteq> []) (map snd (map (\<lambda>m. (m, [])) later)) = []"
    by (induction later) simp_all
  have a: "get_thread_name (define_thread_seq i [(mk1, []), (mk2, ''Render'')] s) i = ''Render''"
    by (simp add: get_thread_name_slot_name define_thread_seq_name [OF r1 r2]
          del: define_thread_seq.simps)
  have b: "get_thread_name
       (define_thread_seq i ([(mk1, []), (mk2, ''Render'')] @ map (\<lambda>m. (m, [])) later) s) i
       = ''Render''"
    by (simp add: get_thread_name_slot_name define_thread_seq_name [OF r1 r2] none
          del: define_thread_seq.simps)
  show "fst (define_thread mk i nm s) = None \<and>
     slot_name (snd (define_thread mk i nm s)) i = (if nm \<noteq> [] then nm else slot_name s i) \<and>
     slot_data (snd (define_thread mk i nm s)) i =
       (case slot_data s i of None \<Rightarrow> Some mk | Some d \<Rightarrow> Some d) \<and>
     slot_name (define_thread_seq i calls s) i =
       (if filter (\<lambda>nm. nm \<noteq> []) (map snd calls) = [] then slot_name s i
        else last (filter (\<lambda>nm. nm \<noteq> []) (map snd calls))) \<and>
     slot_data (define_thread_seq i calls s) i =
       (case slot_data s i of
          Some d \<Rightarrow> Some d
        | None \<Rightarrow> (case calls of [] \<Rightarrow> None | c # _ \<Rightarrow> Some (fst c))) \<and>
     get_thread_name (define_thread_seq i [(mk1, []), (mk2, ''Render'')] s) i = ''Render'' \<and>
     get_thread_name
       (define_thread_seq i ([(mk1, []), (mk2, ''Render'')] @ map (\<lambda>m. (m, [])) later) s) i
       = ''Render''"
    by (intro conjI define_thread_accepts [OF r1 r2] define_thread_slot_name [OF r1 r2]
          define_thread_slot_data [OF r1 r2] define_thread_seq_name [OF r1 r2]
          define_thread_seq_data [OF r1 r2] a b)
qed

theorem define_thread_backfills_name_witness:
  "(0::int) \<le> 3 \<and> (3::int) < 1000 \<and>
   fst (define_thread (10::nat) 3 ''Render'' (PStatClientData_ctor (Some 7))) = None \<and>
   slot_name (snd (define_thread (10::nat) 3 ''Render'' (PStatClientData_ctor (Some 7)))) 3 = ''Render'' \<and>
   slot_data (snd (define_thread (10::nat) 3 ''Render'' (PStatClientData_ctor (Some 7)))) 3 = Some 10 \<and>
   slot_name (define_thread_seq 3 [(10::nat, []), (20, ''Render''), (30, []), (40, ''Draw''), (50, [])]
                (PStatClientData_ctor (Some 7))) 3 = ''Draw'' \<and>
   slot_data (define_thread_seq 3 [(10::nat, []), (20, ''Render''), (30, []), (40, ''Draw''), (50, [])]
                (PStatClientData_ctor (Some 7))) 3 = Some 10 \<and>
   get_thread_name (define_thread_seq 3 [(10::nat, []), (20, ''Render'')] (PStatClientData_ctor (Some 7))) 3
     = ''Render'' \<and>
   get_thread_name
     (define_thread_seq 3 ([(10::nat, []), (20, ''Render'')] @ map (\<lambda>m. (m, [])) [30, 40])
        (PStatClientData_ctor (Some 7))) 3 = ''Render''"
proof -
  have e: "slot_name (PStatClientData_ctor (Some 7) :: nat PStatClientData) 3 = []"
    "slot_data (PStatClientData_ctor (Some 7) :: nat PStatClientData) 3 = None"
    by (simp_all add: slot_name_def slot_data_def PStatClientData_ctor_def)
  show ?thesis
    using define_thread_backfills_name
      [of 3 10 "''Render''" "PStatClientData_ctor (Some 7)"
          "[(10::nat, []), (20, ''Render''), (30, []), (40, ''Draw''), (50, [])]"
          10 20 "[30, 40]"]
    by (simp add: e del: define_thread_seq.simps)
qed

lemma get_thread_data_in_range:
  assumes "0 \<le> i" and "i < 1000"
  shows "get_thread_data mk i s =
           (None, slot_data (snd (define_thread mk i [] s)) i, snd (define_thread mk i [] s))"
proof -
  obtain s1 where d: "define_thread mk i [] s = (None, s1)"
    using define_thread_accepts [OF assms, of mk "[]" s]
    by (cases "define_thread mk i [] s") auto
  have "nat i < length (threads s1)"
    using define_thread_has_slot [OF assms, of mk "[]" s] by (simp add: d)
  then have "i < int (length (threads s1))"
    using assms(1) by simp
  then show ?thesis
    using assms(1) by (simp add: get_thread_data_def d slot_data_def)
qed

lemma record_new_frame_in_range:
  assumes "0 \<le> i" and "i < 1000"
  shows "fst (record_new_frame rnf mk i n fd s) = None"
    and "slot_name (snd (record_new_frame rnf mk i n fd s)) i = slot_name s i"
    and "slot_data (snd (record_new_frame rnf mk i n fd s)) i =
           Some (rnf n fd (case slot_data s i of None \<Rightarrow> mk | Some d \<Rightarrow> d))"
    and "nat i < length (threads (snd (record_new_frame rnf mk i n fd s)))"
proof -
  obtain s1 where d: "define_thread mk i [] s = (None, s1)"
    using define_thread_accepts [OF assms, of mk "[]" s]
    by (cases "define_thread mk i [] s") auto
  have len: "nat i < length (threads s1)"
    using define_thread_has_slot [OF assms, of mk "[]" s] by (simp add: d)
  then have lt: "i < int (length (threads s1))"
    using assms(1) by simp
  have nm: "slot_name s1 i = slot_name s i"
    using define_thread_slot_name [OF assms, of mk "[]" s] by (simp add: d)
  have dt: "slot_data s1 i = Some (case slot_data s i of None \<Rightarrow> mk | Some d \<Rightarrow> d)"
    using define_thread_slot_data [OF assms, of mk "[]" s]
    by (simp add: d split: option.split)
  then have dt': "thread_data (threads s1 ! nat i) =
      Some (case slot_data s i of None \<Rightarrow> mk | Some d \<Rightarrow> d)"
    using assms(1) lt by (simp add: slot_data_def)
  have r: "record_new_frame rnf mk i n fd s =
      (None, s1\<lparr>threads := (threads s1)[nat i := (threads s1 ! nat i)
         \<lparr>thread_data := Some (rnf n fd (case slot_data s i of None \<Rightarrow> mk | Some d \<Rightarrow> d))\<rparr>]\<rparr>)"
    using assms(1) lt by (simp add: record_new_frame_def d dt')
  show "fst (record_new_frame rnf mk i n fd s) = None"
    by (simp add: r)
  show "slot_name (snd (record_new_frame rnf mk i n fd s)) i = slot_name s i"
    using assms(1) lt len nm by (simp add: r slot_name_def)
  show "slot_data (snd (record_new_frame rnf mk i n fd s)) i =
           Some (rnf n fd (case slot_data s i of None \<Rightarrow> mk | Some d \<Rightarrow> d))"
    using assms(1) lt len by (simp add: r slot_data_def)
  show "nat i < length (threads (snd (record_new_frame rnf mk i n fd s)))"
    using len by (simp add: r)
qed

text \<open>
  Claim C10. A thread id from 0 to 999 that has no non-empty name yet and is
  materialized by \<^verbatim>\<open>define_thread\<close> with the empty name, by \<^verbatim>\<open>get_thread_data\<close> or by
  \<^verbatim>\<open>record_new_frame\<close> has a slot and a frame store afterwards, and still
  \<^verbatim>\<open>has_thread\<close> is false and \<^verbatim>\<open>get_thread_name\<close> is \<open>Unknown\<close>. \<^verbatim>\<open>has_thread\<close> holds
  exactly when a non-empty name is stored for the id: after a \<^verbatim>\<open>define_thread\<close> call it
  holds when the call had a non-empty name or it held before.
\<close>

theorem unnamed_thread_is_not_reported:
  "(0 \<le> i \<and> i < 1000 \<and> \<not> has_thread s i \<longrightarrow>
      (fst (define_thread mk i [] s) = None \<and>
       \<not> has_thread (snd (define_thread mk i [] s)) i \<and>
       get_thread_name (snd (define_thread mk i [] s)) i = ''Unknown'' \<and>
       nat i < length (threads (snd (define_thread mk i [] s))) \<and>
       slot_data (snd (define_thread mk i [] s)) i \<noteq> None) \<and>
      (fst (get_thread_data mk i s) = None \<and>
       fst (snd (get_thread_data mk i s)) \<noteq> None \<and>
       \<not> has_thread (snd (snd (get_thread_data mk i s))) i \<and>
       get_thread_name (snd (snd (get_thread_data mk i s))) i = ''Unknown'' \<and>
       nat i < length (threads (snd (snd (get_thread_data mk i s)))) \<and>
       slot_data (snd (snd (get_thread_data mk i s))) i = fst (snd (get_thread_data mk i s))) \<and>
      (fst (record_new_frame rnf mk i n fd s) = None \<and>
       \<not> has_thread (snd (record_new_frame rnf mk i n fd s)) i \<and>
       get_thread_name (snd (record_new_frame rnf mk i n fd s)) i = ''Unknown'' \<and>
       nat i < length (threads (snd (record_new_frame rnf mk i n fd s))) \<and>
       slot_data (snd (record_new_frame rnf mk i n fd s)) i \<noteq> None)) \<and>
   (0 \<le> i \<and> i < 1000 \<longrightarrow>
      (has_thread (snd (define_thread mk i nm s)) i \<longleftrightarrow> nm \<noteq> [] \<or> has_thread s i)) \<and>
   (has_thread s i \<longleftrightarrow> slot_name s i \<noteq> [])"
proof -
  have r: "0 \<le> i" "i < 1000" "slot_name s i = []"
    if "0 \<le> i \<and> i < 1000 \<and> \<not> has_thread s i"
    using that by (simp_all add: has_thread_slot_name)
  have D: "fst (define_thread mk i [] s) = None \<and>
       \<not> has_thread (snd (define_thread mk i [] s)) i \<and>
       get_thread_name (snd (define_thread mk i [] s)) i = ''Unknown'' \<and>
       nat i < length (threads (snd (define_thread mk i [] s))) \<and>
       slot_data (snd (define_thread mk i [] s)) i \<noteq> None"
    if a: "0 \<le> i \<and> i < 1000 \<and> \<not> has_thread s i"
    using define_thread_has_slot [OF r(1,2) [OF a], of mk "[]" s] r [OF a]
    by (simp add: define_thread_accepts has_thread_slot_name get_thread_name_slot_name
          define_thread_slot_name define_thread_slot_data split: option.split)
  have G: "fst (get_thread_data mk i s) = None \<and>
       fst (snd (get_thread_data mk i s)) \<noteq> None \<and>
       \<not> has_thread (snd (snd (get_thread_data mk i s))) i \<and>
       get_thread_name (snd (snd (get_thread_data mk i s))) i = ''Unknown'' \<and>
       nat i < length (threads (snd (snd (get_thread_data mk i s)))) \<and>
       slot_data (snd (snd (get_thread_data mk i s))) i = fst (snd (get_thread_data mk i s))"
    if a: "0 \<le> i \<and> i < 1000 \<and> \<not> has_thread s i"
    using define_thread_has_slot [OF r(1,2) [OF a], of mk "[]" s] r [OF a]
    by (simp add: get_thread_data_in_range has_thread_slot_name get_thread_name_slot_name
          define_thread_slot_name define_thread_slot_data split: option.split)
  have R: "fst (record_new_frame rnf mk i n fd s) = None \<and>
       \<not> has_thread (snd (record_new_frame rnf mk i n fd s)) i \<and>
       get_thread_name (snd (record_new_frame rnf mk i n fd s)) i = ''Unknown'' \<and>
       nat i < length (threads (snd (record_new_frame rnf mk i n fd s))) \<and>
       slot_data (snd (record_new_frame rnf mk i n fd s)) i \<noteq> None"
    if a: "0 \<le> i \<and> i < 1000 \<and> \<not> has_thread s i"
    using r [OF a]
    by (simp add: record_new_frame_in_range has_thread_slot_name get_thread_name_slot_name)
  have H: "has_thread (snd (define_thread mk i nm s)) i \<longleftrightarrow> nm \<noteq> [] \<or> has_thread s i"
    if "0 \<le> i \<and> i < 1000"
    using that by (simp add: has_thread_slot_name define_thread_slot_name)
  show ?thesis
    using D G R H has_thread_slot_name [of s i] by blast
qed

theorem unnamed_thread_is_not_reported_witness:
  "(0::int) \<le> 3 \<and> (3::int) < 1000 \<and>
   \<not> has_thread (PStatClientData_ctor (Some 7) :: nat PStatClientData) 3 \<and>
   \<not> has_thread (snd (define_thread (10::nat) 3 [] (PStatClientData_ctor (Some 7)))) 3 \<and>
   get_thread_name (snd (define_thread (10::nat) 3 [] (PStatClientData_ctor (Some 7)))) 3 = ''Unknown'' \<and>
   slot_data (snd (define_thread (10::nat) 3 [] (PStatClientData_ctor (Some 7)))) 3 \<noteq> None \<and>
   fst (snd (get_thread_data (10::nat) 3 (PStatClientData_ctor (Some 7)))) \<noteq> None \<and>
   \<not> has_thread (snd (snd (get_thread_data (10::nat) 3 (PStatClientData_ctor (Some 7))))) 3 \<and>
   \<not> has_thread
       (snd (record_new_frame (\<lambda>n fd d. Suc d) (10::nat) 3 5 \<lparr>frame_time = 0\<rparr>
               (PStatClientData_ctor (Some 7)))) 3 \<and>
   slot_data
       (snd (record_new_frame (\<lambda>n fd d. Suc d) (10::nat) 3 5 \<lparr>frame_time = 0\<rparr>
               (PStatClientData_ctor (Some 7)))) 3 \<noteq> None \<and>
   has_thread (snd (define_thread (10::nat) 3 ''Main'' (PStatClientData_ctor (Some 7)))) 3"
proof -
  have e: "\<not> has_thread (PStatClientData_ctor (Some 7) :: nat PStatClientData) 3"
    by (simp add: has_thread_def PStatClientData_ctor_def)
  show ?thesis
    using unnamed_thread_is_not_reported
      [where i = 3 and s = "PStatClientData_ctor (Some 7)" and mk = "10::nat"
         and rnf = "\<lambda>n fd d. Suc d" and n = 5 and fd = "\<lparr>frame_time = 0\<rparr>"
         and nm = "''Main''"]
    by (simp add: e)
qed

section \<open>Closing a session\<close>

lemma close_fields:
  "collectors (fst (close s)) = collectors s"
  "threads (fst (close s)) = threads s"
  by (simp_all add: close_def)

lemma close_twice:
  "fst (close (fst (close s))) = fst (close s)"
  "snd (close (fst (close s))) = []"
  by (simp_all add: close_def)

lemma add_collector_keeps_rest:
  "alive_flag (snd (add_collector d s)) = alive_flag s"
  "reader (snd (add_collector d s)) = reader s"
  "threads (snd (add_collector d s)) = threads s"
  by (simp_all add: add_collector_def split: prod.splits option.splits)

lemma get_thread_data_keeps_rest:
  "alive_flag (snd (snd (get_thread_data mk i s))) = alive_flag s"
  "reader (snd (snd (get_thread_data mk i s))) = reader s"
  "collectors (snd (snd (get_thread_data mk i s))) = collectors s"
proof -
  have "snd (snd (get_thread_data mk i s)) = snd (define_thread mk i [] s)"
    by (simp add: get_thread_data_def split: prod.splits option.splits error.splits)
  then show "alive_flag (snd (snd (get_thread_data mk i s))) = alive_flag s"
    "reader (snd (snd (get_thread_data mk i s))) = reader s"
    "collectors (snd (snd (get_thread_data mk i s))) = collectors s"
    by (simp_all add: define_thread_keeps_rest)
qed

lemma record_new_frame_keeps_rest:
  "alive_flag (snd (record_new_frame rnf mk i n fd s)) = alive_flag s"
  "reader (snd (record_new_frame rnf mk i n fd s)) = reader s"
  "collectors (snd (record_new_frame rnf mk i n fd s)) = collectors s"
proof -
  obtain e s1 where d: "define_thread mk i [] s = (e, s1)"
    by (cases "define_thread mk i [] s")
  have k: "alive_flag s1 = alive_flag s" "reader s1 = reader s" "collectors s1 = collectors s"
    using define_thread_keeps_rest [of mk i "[]" s] by (simp_all add: d)
  show "alive_flag (snd (record_new_frame rnf mk i n fd s)) = alive_flag s"
    "reader (snd (record_new_frame rnf mk i n fd s)) = reader s"
    "collectors (snd (record_new_frame rnf mk i n fd s)) = collectors s"
    by (simp_all add: record_new_frame_def d k split: option.splits error.splits)
qed

lemma reachable_alive_iff_reader:
  "reachable s \<Longrightarrow> alive_flag s \<longleftrightarrow> reader s \<noteq> None"
proof (induction rule: reachable.induct)
  case (reach_ctor r)
  then show ?case by (simp add: PStatClientData_ctor_def)
next
  case (reach_add_collector s d e s')
  then show ?case using add_collector_keeps_rest(1,2) [of d s] by simp
next
  case (reach_define_thread s i mk nm e s')
  then show ?case using define_thread_keeps_rest(1,2) [of mk i nm s] by simp
next
  case (reach_get_thread_data s i mk e d s')
  then show ?case using get_thread_data_keeps_rest(1,2) [of mk i s] by simp
next
  case (reach_record_new_frame s i rnf mk n fd e s')
  then show ?case using record_new_frame_keeps_rest(1,2) [of rnf mk i n fd s] by simp
next
  case (reach_close s)
  then show ?case by (auto simp add: close_def)
qed

lemma add_collector_table_size:
  assumes "fits_int (def_index d)" and "length (collectors s) \<le> 1000"
    and "fst (add_collector d s) \<noteq> Some AllocError"
  shows "length (collectors (snd (add_collector d s))) \<le> 1000"
proof -
  consider "1000 \<le> def_index d" | "0 \<le> def_index d" "def_index d < 1000" | "def_index d < 0"
    by linarith
  then show ?thesis
  proof cases
    case 1
    then show ?thesis using assms(2) by (simp add: add_collector_too_large)
  next
    case 2
    then show ?thesis using assms(2) by (simp add: add_collector_in_range)
  next
    case 3
    have "length (collectors s) \<le> vector_max_size"
      using assms(2) by (simp add: vector_max_size_def)
    with 3 assms(1) have "fst (add_collector d s) = Some AllocError"
      by (simp add: add_collector_negative fits_int_def)
    with assms(3) show ?thesis by simp
  qed
qed

lemma define_thread_table_size:
  assumes "fits_int i" and "length (threads s) \<le> 1000"
    and "fst (define_thread mk i nm s) \<noteq> Some AllocError"
  shows "length (threads (snd (define_thread mk i nm s))) \<le> 1000"
proof -
  consider "1000 \<le> i" | "0 \<le> i" "i < 1000" | "i < 0"
    by linarith
  then show ?thesis
  proof cases
    case 1
    then show ?thesis using assms(2) by (simp add: define_thread_too_large)
  next
    case 2
    then show ?thesis using assms(2) by (simp add: define_thread_in_range)
  next
    case 3
    have "length (threads s) \<le> vector_max_size"
      using assms(2) by (simp add: vector_max_size_def)
    with 3 assms(1) have "fst (define_thread mk i nm s) = Some AllocError"
      by (simp add: define_thread_negative fits_int_def)
    with assms(3) show ?thesis by simp
  qed
qed

lemma get_thread_data_state:
  "snd (snd (get_thread_data mk i s)) = snd (define_thread mk i [] s)"
  "fst (get_thread_data mk i s) \<noteq> Some AllocError \<Longrightarrow>
     fst (define_thread mk i [] s) \<noteq> Some AllocError"
  by (auto simp add: get_thread_data_def split: prod.splits option.splits error.splits)

lemma record_new_frame_state:
  "length (threads (snd (record_new_frame rnf mk i n fd s))) =
     length (threads (snd (define_thread mk i [] s)))"
  "fst (record_new_frame rnf mk i n fd s) \<noteq> Some AllocError \<Longrightarrow>
     fst (define_thread mk i [] s) \<noteq> Some AllocError"
  by (auto simp add: record_new_frame_def split: prod.splits option.splits error.splits)

lemma reachable_table_sizes:
  "reachable s \<Longrightarrow> length (collectors s) \<le> 1000 \<and> length (threads s) \<le> 1000"
proof (induction rule: reachable.induct)
  case (reach_ctor r)
  then show ?case by (simp add: PStatClientData_ctor_def)
next
  case (reach_add_collector s d e s')
  then show ?case
    using add_collector_table_size [of d s] add_collector_keeps_rest(3) [of d s] by simp
next
  case (reach_define_thread s i mk nm e s')
  then show ?case
    using define_thread_table_size [of i s mk nm] define_thread_keeps_rest(3) [of mk i nm s]
    by simp
next
  case (reach_get_thread_data s i mk e d s')
  then show ?case
    using define_thread_table_size [of i s mk "[]"] define_thread_keeps_rest(3) [of mk i "[]" s]
      get_thread_data_state [of mk i s]
    by simp
next
  case (reach_record_new_frame s i rnf mk n fd e s')
  then show ?case
    using define_thread_table_size [of i s mk "[]"] record_new_frame_keeps_rest(3) [of rnf mk i n fd s]
      record_new_frame_state [of rnf mk i n fd s]
    by simp
next
  case (reach_close s)
  then show ?case by (simp add: close_fields)
qed

text \<open>
  Claim C7. Closing twice leaves the session in the state that closing once leaves it
  in, and the second call closes no reader. For a session that was made with its
  reader and changed by the calls of the class, the state after \<^verbatim>\<open>close\<close> is: not
  alive, reader pointer null; over the two calls the reader is closed once when the
  session was alive before, and not at all when it had been closed before.
\<close>

theorem close_is_idempotent:
  "fst (close (fst (close s))) = fst (close s) \<and>
   snd (close (fst (close s))) = [] \<and>
   (reachable s \<longrightarrow>
      \<not> is_alive (fst (close s)) \<and> reader (fst (close s)) = None \<and>
      \<not> is_alive (fst (close (fst (close s)))) \<and>
      snd (close s) @ snd (close (fst (close s))) =
        (case reader s of Some r \<Rightarrow> [r] | None \<Rightarrow> []) \<and>
      length (snd (close s) @ snd (close (fst (close s)))) = (if is_alive s then 1 else 0))"
proof (intro conjI impI)
  show "fst (close (fst (close s))) = fst (close s)" by (rule close_twice)
  show "snd (close (fst (close s))) = []" by (rule close_twice)
next
  assume "reachable s"
  then have inv: "alive_flag s \<longleftrightarrow> reader s \<noteq> None"
    by (rule reachable_alive_iff_reader)
  then show "\<not> is_alive (fst (close s))"
    by (auto simp add: close_def is_alive_def)
  then show "\<not> is_alive (fst (close (fst (close s))))"
    by (simp add: close_twice)
  from inv show "reader (fst (close s)) = None"
    by (auto simp add: close_def)
  from inv show "snd (close s) @ snd (close (fst (close s))) =
        (case reader s of Some r \<Rightarrow> [r] | None \<Rightarrow> [])"
    by (auto simp add: close_twice close_def)
  from inv show "length (snd (close s) @ snd (close (fst (close s)))) = (if is_alive s then 1 else 0)"
    by (auto simp add: close_twice close_def is_alive_def)
qed

theorem close_is_idempotent_witness:
  "reachable (snd (add_collector (PStatCollectorDef_ctor 1 ''Draw'') (PStatClientData_ctor (Some 7)))
              :: unit PStatClientData) \<and>
   \<not> is_alive (fst (close (snd (add_collector (PStatCollectorDef_ctor 1 ''Draw'')
                                (PStatClientData_ctor (Some 7) :: unit PStatClientData))))) \<and>
   reader (fst (close (snd (add_collector (PStatCollectorDef_ctor 1 ''Draw'')
                                (PStatClientData_ctor (Some 7) :: unit PStatClientData))))) = None \<and>
   snd (close (snd (add_collector (PStatCollectorDef_ctor 1 ''Draw'')
                                (PStatClientData_ctor (Some 7) :: unit PStatClientData)))) = [7] \<and>
   snd (close (fst (close (snd (add_collector (PStatCollectorDef_ctor 1 ''Draw'')
                                (PStatClientData_ctor (Some 7) :: unit PStatClientData)))))) = []"
proof -
  let ?s = "snd (add_collector (PStatCollectorDef_ctor 1 ''Draw'')
                   (PStatClientData_ctor (Some 7) :: unit PStatClientData))"
  have ok: "add_collector (PStatCollectorDef_ctor 1 ''Draw'')
              (PStatClientData_ctor (Some 7) :: unit PStatClientData) = (None, ?s)"
    by (simp add: add_collector_in_range PStatCollectorDef_ctor_def)
  have re: "reachable ?s"
    using reach_ctor _ ok
    by (rule reach_add_collector) (simp_all add: fits_int_def PStatCollectorDef_ctor_def)
  have rd: "reader ?s = Some 7"
    by (simp add: add_collector_keeps_rest PStatClientData_ctor_def)
  show ?thesis
    using close_is_idempotent [of ?s] re rd by auto
qed

section \<open>What closing leaves alone\<close>

lemma has_collector_cong:
  "collectors t = collectors s \<Longrightarrow> has_collector t i = has_collector s i"
  by (simp add: has_collector_def)

lemma get_collector_def_cong:
  "collectors t = collectors s \<Longrightarrow> get_collector_def t i = get_collector_def s i"
  by (simp add: get_collector_def_def has_collector_def)

lemma get_collector_name_cong:
  "collectors t = collectors s \<Longrightarrow> get_collector_name t i = get_collector_name s i"
  by (simp add: get_collector_name_def has_collector_def)

lemma has_thread_cong:
  "threads t = threads s \<Longrightarrow> has_thread t i = has_thread s i"
  by (simp add: has_thread_def)

lemma get_thread_name_cong:
  "threads t = threads s \<Longrightarrow> get_thread_name t i = get_thread_name s i"
  by (simp add: get_thread_name_def has_thread_def)

lemma get_collector_fullname_le:
  fixes s :: "'d PStatClientData"
  assumes r: "get_collector_fullname s idx = Some y"
  shows "\<forall>t :: 'd PStatClientData. collectors t = collectors s \<longrightarrow> get_collector_fullname t idx = Some y"
proof (rule get_collector_fullname.raw_induct
    [where P = "\<lambda>s idx y. \<forall>t :: 'd PStatClientData. collectors t = collectors s \<longrightarrow> get_collector_fullname t idx = Some y"
       and s = s and idx = idx and y = y])
  show "get_collector_fullname s idx = Some y" by (rule r)
next
  fix f :: "'d PStatClientData \<Rightarrow> int \<Rightarrow> string option" and s idx y
  assume IH: "\<And>s idx y. f s idx = Some y \<Longrightarrow>
                \<forall>t :: 'd PStatClientData. collectors t = collectors s \<longrightarrow> get_collector_fullname t idx = Some y"
  assume eq:
    "(if \<not> has_collector s idx then Some ''Unknown''
      else if def_parent_index (the (collectors s ! nat idx)) = 0
        then Some (def_name (the (collectors s ! nat idx)))
        else Option.bind (f s (def_parent_index (the (collectors s ! nat idx))))
               (\<lambda>p. Some (p @ '':'' @ def_name (the (collectors s ! nat idx))))) = Some y"
  show "\<forall>t :: 'd PStatClientData. collectors t = collectors s \<longrightarrow> get_collector_fullname t idx = Some y"
  proof (intro allI impI)
    fix t :: "'d PStatClientData"
    assume c: "collectors t = collectors s"
    then have h: "has_collector t idx = has_collector s idx"
      by (rule has_collector_cong)
    show "get_collector_fullname t idx = Some y"
    proof (cases "has_collector s idx \<and> def_parent_index (the (collectors s ! nat idx)) \<noteq> 0")
      case False
      then show ?thesis
        using eq by (subst get_collector_fullname.simps) (auto simp add: h c)
    next
      case True
      with eq obtain z where z: "f s (def_parent_index (the (collectors s ! nat idx))) = Some z"
        and y: "y = z @ '':'' @ def_name (the (collectors s ! nat idx))"
        by (auto split: bind_splits)
      from IH [OF z] c
      have "get_collector_fullname t (def_parent_index (the (collectors s ! nat idx))) = Some z"
        by blast
      then show ?thesis
        using True y by (subst get_collector_fullname.simps) (simp add: h c)
    qed
  qed
qed

lemma get_collector_fullname_cong:
  fixes s t :: "'d PStatClientData"
  assumes "collectors t = collectors s"
  shows "get_collector_fullname t idx = get_collector_fullname s idx"
proof (cases "get_collector_fullname s idx")
  case (Some y)
  then show ?thesis using get_collector_fullname_le assms by metis
next
  case None
  show ?thesis
  proof (cases "get_collector_fullname t idx")
    case None
    with \<open>get_collector_fullname s idx = None\<close> show ?thesis by simp
  next
    case (Some y)
    then have "get_collector_fullname s idx = Some y"
      using get_collector_fullname_le [of t idx y] assms by simp
    with None show ?thesis by simp
  qed
qed

lemma get_child_distance_le:
  fixes s :: "'d PStatClientData"
  assumes r: "get_child_distance s p c = Some y"
  shows "\<forall>t :: 'd PStatClientData. collectors t = collectors s \<longrightarrow> get_child_distance t p c = Some y"
proof (rule get_child_distance.raw_induct
    [where P = "\<lambda>s p c y. \<forall>t :: 'd PStatClientData. collectors t = collectors s \<longrightarrow> get_child_distance t p c = Some y"
       and s = s and parent = p and child = c and y = y])
  show "get_child_distance s p c = Some y" by (rule r)
next
  fix f :: "'d PStatClientData \<Rightarrow> int \<Rightarrow> int \<Rightarrow> int option" and s p c y
  assume IH: "\<And>s p c y. f s p c = Some y \<Longrightarrow>
                \<forall>t :: 'd PStatClientData. collectors t = collectors s \<longrightarrow> get_child_distance t p c = Some y"
  assume eq:
    "(if p = c then Some 0
      else if \<not> has_collector s c \<or> c = 0 then Some (- 1)
      else Option.bind (f s p (def_parent_index (get_collector_def s c)))
             (\<lambda>dist. if dist = - 1 then Some (- 1) else Some (dist + 1))) = Some y"
  show "\<forall>t :: 'd PStatClientData. collectors t = collectors s \<longrightarrow> get_child_distance t p c = Some y"
  proof (intro allI impI)
    fix t :: "'d PStatClientData"
    assume ct: "collectors t = collectors s"
    then have h: "has_collector t c = has_collector s c"
      and g: "get_collector_def t c = get_collector_def s c"
      by (rule has_collector_cong, rule get_collector_def_cong)
    show "get_child_distance t p c = Some y"
    proof (cases "p \<noteq> c \<and> has_collector s c \<and> c \<noteq> 0")
      case False
      then show ?thesis
        using eq by (subst get_child_distance.simps) (auto simp add: h)
    next
      case True
      with eq obtain z where z: "f s p (def_parent_index (get_collector_def s c)) = Some z"
        and y: "y = (if z = - 1 then - 1 else z + 1)"
        by (auto split: bind_splits if_splits)
      from IH [OF z] ct
      have "get_child_distance t p (def_parent_index (get_collector_def s c)) = Some z"
        by blast
      then show ?thesis
        using True y by (subst get_child_distance.simps) (simp add: h g)
    qed
  qed
qed

lemma get_child_distance_cong:
  fixes s t :: "'d PStatClientData"
  assumes "collectors t = collectors s"
  shows "get_child_distance t p c = get_child_distance s p c"
proof (cases "get_child_distance s p c")
  case (Some y)
  then show ?thesis using get_child_distance_le assms by metis
next
  case None
  show ?thesis
  proof (cases "get_child_distance t p c")
    case None
    with \<open>get_child_distance s p c = None\<close> show ?thesis by simp
  next
    case (Some y)
    then have "get_child_distance s p c = Some y"
      using get_child_distance_le [of t p c y] assms by simp
    with None show ?thesis by simp
  qed
qed

lemma add_collector_after_close:
  "add_collector d (fst (close s)) =
     (fst (add_collector d s), fst (close (snd (add_collector d s))))"
  by (auto simp add: add_collector_def close_def split: option.split prod.split)

lemma define_thread_after_close:
  "define_thread mk i nm (fst (close s)) =
     (fst (define_thread mk i nm s), fst (close (snd (define_thread mk i nm s))))"
  by (auto simp add: define_thread_def close_def Let_def split: option.split prod.split)

text \<open>
  Claim C8, as stated, ends with: no further mutation is accepted after the session
  is closed. The mutating calls never look at the liveness flag. A session that was
  closed right after its construction accepts \<^verbatim>\<open>add_collector\<close> for id 1, and the
  collector is defined afterwards.
\<close>

theorem closed_session_accepts_add_collector:
  "\<not> is_alive (fst (close (PStatClientData_ctor (Some 7) :: unit PStatClientData))) \<and>
   \<not> has_collector (fst (close (PStatClientData_ctor (Some 7) :: unit PStatClientData))) 1 \<and>
   fst (add_collector (PStatCollectorDef_ctor 1 ''Late'')
          (fst (close (PStatClientData_ctor (Some 7) :: unit PStatClientData)))) = None \<and>
   has_collector
     (snd (add_collector (PStatCollectorDef_ctor 1 ''Late'')
             (fst (close (PStatClientData_ctor (Some 7) :: unit PStatClientData))))) 1"
  by (simp add: add_collector_in_range PStatCollectorDef_ctor_def)
     (simp add: close_def PStatClientData_ctor_def is_alive_def has_collector_def)

text \<open>
  Claim C8, amended. \<^verbatim>\<open>close\<close> changes the liveness flag and the reader pointer only:
  the collector table and the thread table are as before, and \<^verbatim>\<open>has_collector\<close>,
  \<^verbatim>\<open>get_collector_def\<close>, \<^verbatim>\<open>get_collector_name\<close>, \<^verbatim>\<open>get_collector_fullname\<close>,
  \<^verbatim>\<open>has_thread\<close>, \<^verbatim>\<open>get_thread_name\<close> and \<^verbatim>\<open>get_child_distance\<close> return what they
  returned before. The mutating calls \<^verbatim>\<open>add_collector\<close> and \<^verbatim>\<open>define_thread\<close> do not
  test the liveness flag: on the closed session they are accepted or rejected as on
  the open one and change the tables in the same way.
\<close>

theorem close_changes_liveness_and_reader_only:
  "collectors (fst (close s)) = collectors s \<and>
   threads (fst (close s)) = threads s \<and>
   has_collector (fst (close s)) i = has_collector s i \<and>
   get_collector_def (fst (close s)) i = get_collector_def s i \<and>
   get_collector_name (fst (close s)) i = get_collector_name s i \<and>
   get_collector_fullname (fst (close s)) i = get_collector_fullname s i \<and>
   has_thread (fst (close s)) i = has_thread s i \<and>
   get_thread_name (fst (close s)) i = get_thread_name s i \<and>
   get_child_distance (fst (close s)) p c = get_child_distance s p c \<and>
   fst (add_collector d (fst (close s))) = fst (add_collector d s) \<and>
   collectors (snd (add_collector d (fst (close s)))) = collectors (snd (add_collector d s)) \<and>
   threads (snd (add_collector d (fst (close s)))) = threads (snd (add_collector d s)) \<and>
   fst (define_thread mk i nm (fst (close s))) = fst (define_thread mk i nm s) \<and>
   collectors (snd (define_thread mk i nm (fst (close s)))) =
     collectors (snd (define_thread mk i nm s)) \<and>
   threads (snd (define_thread mk i nm (fst (close s)))) = threads (snd (define_thread mk i nm s))"
proof -
  note c = close_fields(1) [of s] and t = close_fields(2) [of s]
  have m: "fst (add_collector d (fst (close s))) = fst (add_collector d s)"
    "collectors (snd (add_collector d (fst (close s)))) = collectors (snd (add_collector d s))"
    "threads (snd (add_collector d (fst (close s)))) = threads (snd (add_collector d s))"
    "fst (define_thread mk i nm (fst (close s))) = fst (define_thread mk i nm s)"
    "collectors (snd (define_thread mk i nm (fst (close s)))) =
       collectors (snd (define_thread mk i nm s))"
    "threads (snd (define_thread mk i nm (fst (close s)))) = threads (snd (define_thread mk i nm s))"
    by (simp_all add: add_collector_after_close define_thread_after_close close_fields)
  show ?thesis
    by (intro conjI c t m has_collector_cong [OF c] get_collector_def_cong [OF c]
          get_collector_name_cong [OF c] get_collector_fullname_cong [OF c]
          has_thread_cong [OF t] get_thread_name_cong [OF t] get_child_distance_cong [OF c])
qed

section \<open>Frame rate\<close>

lemma Min_insert_min:
  "finite S \<Longrightarrow> Min (insert (min a b) S) = Min (insert a (insert b S))"
  for a b :: real
  by (cases "S = {}") (simp_all add: min.assoc)

lemma Max_insert_max:
  "finite S \<Longrightarrow> Max (insert (max a b) S) = Max (insert a (insert b S))"
  for a b :: real
  by (cases "S = {}") (simp_all add: max.assoc)

lemma scan_frames_result:
  "scan_frames ts (n, lo, hi) =
     (n + length ts, Min (insert lo (set ts)), Max (insert hi (set ts)))"
proof (induction ts arbitrary: n lo hi)
  case Nil
  then show ?case by simp
next
  case (Cons t ts)
  have "Min (insert (min lo t) (set ts)) = Min (insert lo (insert t (set ts)))"
    by (rule Min_insert_min) simp
  moreover have "Max (insert (max hi t) (set ts)) = Max (insert hi (insert t (set ts)))"
    by (rule Max_insert_max) simp
  ultimately show ?case by (simp add: Cons.IH)
qed

lemma get_frame_rate_formula:
  "get_frame_rate td w =
     (if length (qualifying_times td w) < 2 then 0
      else if Max (set (qualifying_times td w)) - Min (set (qualifying_times td w)) = 0 then 0
      else (real (length (qualifying_times td w)) - 1) /
             (Max (set (qualifying_times td w)) - Min (set (qualifying_times td w))))"
proof (cases "qualifying_times td w")
  case Nil
  then show ?thesis by (simp add: get_frame_rate_def)
next
  case (Cons t ts)
  then show ?thesis
    by (simp add: get_frame_rate_def scan_frames_result)
qed

lemma four_frames_qualifying: "qualifying_times four_frames 3 = [0, 1 / 2, 1, 3 / 2]"
  by (simp add: qualifying_times_def get_latest_time_def retained_times_def four_frames_def
        List.map_filter_simps)

lemma four_frames_rate: "get_frame_rate four_frames 3 = 2"
  by (simp add: get_frame_rate_def four_frames_qualifying)

text \<open>
  Claim C9. For every store and window \<open>w\<close>, \<^verbatim>\<open>get_frame_rate\<close> is the number of
  qualifying frames less one, divided by the difference of the latest and the earliest
  timestamp among them, where the qualifying frames are the retained frames whose
  timestamp lies within \<open>w\<close> seconds of the latest time; it is 0 when there are fewer
  than two qualifying frames or when their timestamps span no time. Over the four
  frames at 0, 0.5, 1 and 1.5 with \<open>w = 3\<close> it is 2.
\<close>

theorem get_frame_rate_is_mean_rate:
  "get_frame_rate td w =
     (if length (qualifying_times td w) < 2 then 0
      else if Max (set (qualifying_times td w)) - Min (set (qualifying_times td w)) = 0 then 0
      else (real (length (qualifying_times td w)) - 1) /
             (Max (set (qualifying_times td w)) - Min (set (qualifying_times td w)))) \<and>
   (length (qualifying_times td w) < 2 \<longrightarrow> get_frame_rate td w = 0) \<and>
   (Max (set (qualifying_times td w)) - Min (set (qualifying_times td w)) = 0 \<longrightarrow>
      get_frame_rate td w = 0) \<and>
   get_frame_rate four_frames 3 = 2"
  using get_frame_rate_formula [of td w] four_frames_rate by simp

theorem get_frame_rate_is_mean_rate_witness:
  "(qualifying_times \<lparr>frames = [Some \<lparr>frame_time = 0\<rparr>, None, Some \<lparr>frame_time = 10\<rparr>],
                      first_frame_number = 0, history = 60\<rparr> 3 = [10] \<and>
    get_frame_rate \<lparr>frames = [Some \<lparr>frame_time = 0\<rparr>, None, Some \<lparr>frame_time = 10\<rparr>],
                    first_frame_number = 0, history = 60\<rparr> 3 = 0) \<and>
   (qualifying_times \<lparr>frames = [Some \<lparr>frame_time = 4\<rparr>, Some \<lparr>frame_time = 4\<rparr>],
                      first_frame_number = 0, history = 60\<rparr> 3 = [4, 4] \<and>
    get_frame_rate \<lparr>frames = [Some \<lparr>frame_time = 4\<rparr>, Some \<lparr>frame_time = 4\<rparr>],
                    first_frame_number = 0, history = 60\<rparr> 3 = 0) \<and>
   (qualifying_times \<lparr>frames = [Some \<lparr>frame_time = 1\<rparr>, Some \<lparr>frame_time = 2\<rparr>, None,
                                Some \<lparr>frame_time = 5\<rparr>],
                      first_frame_number = 0, history = 60\<rparr> 3 = [2, 5] \<and>
    get_frame_rate \<lparr>frames = [Some \<lparr>frame_time = 1\<rparr>, Some \<lparr>frame_time = 2\<rparr>, None,
                              Some \<lparr>frame_time = 5\<rparr>],
                    first_frame_number = 0, history = 60\<rparr> 3 = 1 / 3)"
proof -
  let ?a = "\<lparr>frames = [Some \<lparr>frame_time = 0\<rparr>, None, Some \<lparr>frame_time = 10\<rparr>],
             first_frame_number = 0, history = 60\<rparr>"
  let ?b = "\<lparr>frames = [Some \<lparr>frame_time = 4\<rparr>, Some \<lparr>frame_time = 4\<rparr>],
             first_frame_number = 0, history = 60\<rparr>"
  let ?c = "\<lparr>frames = [Some \<lparr>frame_time = 1\<rparr>, Some \<lparr>frame_time = 2\<rparr>, None,
                       Some \<lparr>frame_time = 5\<rparr>],
             first_frame_number = 0, history = 60\<rparr>"
  have qa: "qualifying_times ?a 3 = [10]"
    by (simp add: qualifying_times_def get_latest_time_def retained_times_def
          List.map_filter_simps)
  have qb: "qualifying_times ?b 3 = [4, 4]"
    by (simp add: qualifying_times_def get_latest_time_def retained_times_def
          List.map_filter_simps)
  have qc: "qualifying_times ?c 3 = [2, 5]"
    by (simp add: qualifying_times_def get_latest_time_def retained_times_def
          List.map_filter_simps)
  have ra: "get_frame_rate ?a 3 = 0"
    using get_frame_rate_is_mean_rate [of ?a 3, THEN conjunct2, THEN conjunct1]
    by (simp add: qa)
  have rb: "get_frame_rate ?b 3 = 0"
    using get_frame_rate_is_mean_rate [of ?b 3, THEN conjunct2, THEN conjunct2, THEN conjunct1]
    by (simp add: qb)
  have rc: "get_frame_rate ?c 3 = 1 / 3"
    using get_frame_rate_is_mean_rate [of ?c 3, THEN conjunct1]
    by (simp add: qc)
  show ?thesis
    using qa qb qc ra rb rc by simp
qed

end
